theory Spec2Isabelle
  imports Main
begin

section \<open>Text as the program reads it\<close>

text \<open>
  The slicer reads every file as text (\<open>open(..., encoding='utf-8', errors='ignore')\<close>) and
  works on Python strings. A Python string is modelled as a \<open>string\<close>; a \<open>char\<close> stands
  for the code point of the same number, so the model covers text whose code points lie below 256.
  The content of a file is the string that \<open>f.read()\<close> returns.
\<close>

definition is_space :: "char \<Rightarrow> bool" where
  \<comment> \<open>\<open>str.isspace\<close> and the class \<open>\s\<close> of \<open>re\<close> on one character: tab, newline, vertical tab,
      form feed, carriage return, the four separators 28 to 31, the blank, NEL (133) and the
      no-break space (160).\<close>
  "is_space c = (let n = (of_char c :: nat) in
      (9 \<le> n \<and> n \<le> 13) \<or> (28 \<le> n \<and> n \<le> 32) \<or> n = 133 \<or> n = 160)"

definition is_alpha :: "char \<Rightarrow> bool" where
  \<comment> \<open>\<open>[a-zA-Z]\<close>\<close>
  "is_alpha c = (let n = (of_char c :: nat) in (65 \<le> n \<and> n \<le> 90) \<or> (97 \<le> n \<and> n \<le> 122))"

definition is_digit :: "char \<Rightarrow> bool" where
  \<comment> \<open>\<open>[0-9]\<close>\<close>
  "is_digit c = (let n = (of_char c :: nat) in 48 \<le> n \<and> n \<le> 57)"

definition lower :: "char \<Rightarrow> char" where
  \<comment> \<open>case folding of one character under \<open>re.IGNORECASE\<close>, on the letters A to Z\<close>
  "lower c = (let n = (of_char c :: nat) in if 65 \<le> n \<and> n \<le> 90 then char_of (n + 32) else c)"

definition lstrip :: "string \<Rightarrow> string" where
  "lstrip s = dropWhile is_space s"

definition rstrip :: "string \<Rightarrow> string" where
  "rstrip s = rev (dropWhile is_space (rev s))"

definition strip :: "string \<Rightarrow> string" where
  \<comment> \<open>\<open>str.strip()\<close>\<close>
  "strip s = rstrip (lstrip s)"

fun startswith :: "string \<Rightarrow> string \<Rightarrow> bool" where
  \<comment> \<open>\<open>startswith s p\<close> is \<open>s.startswith(p)\<close>\<close>
  "startswith s [] = True"
| "startswith [] (p # ps) = False"
| "startswith (c # cs) (p # ps) = (c = p \<and> startswith cs ps)"

definition endswith :: "string \<Rightarrow> string \<Rightarrow> bool" where
  \<comment> \<open>\<open>endswith s p\<close> is \<open>s.endswith(p)\<close>\<close>
  "endswith s p = startswith (rev s) (rev p)"

fun readlines_acc :: "string \<Rightarrow> string \<Rightarrow> string list" where
  \<comment> \<open>the first argument is the line being read, reversed\<close>
  "readlines_acc acc [] = (if acc = [] then [] else [rev acc])"
| "readlines_acc acc (c # cs) =
     (if c = CHR 0x0A then rev (c # acc) # readlines_acc [] cs else readlines_acc (c # acc) cs)"

definition readlines :: "string \<Rightarrow> string list" where
  \<comment> \<open>\<open>f.readlines()\<close>: the lines of the text, each with its newline, the last one possibly
      without\<close>
  "readlines s = readlines_acc [] s"

fun enumerate_from :: "int \<Rightarrow> 'a list \<Rightarrow> (int \<times> 'a) list" where
  \<comment> \<open>\<open>enumerate(xs, n)\<close>\<close>
  "enumerate_from n [] = []"
| "enumerate_from n (x # xs) = (n, x) # enumerate_from (n + 1) xs"

section \<open>Paths (posixpath)\<close>

fun split_on :: "char \<Rightarrow> string \<Rightarrow> string \<Rightarrow> string list" where
  \<comment> \<open>\<open>s.split(c)\<close>, the first string argument being the piece read so far, reversed\<close>
  "split_on d acc [] = [rev acc]"
| "split_on d acc (c # cs) = (if c = d then rev acc # split_on d [] cs else split_on d (c # acc) cs)"

definition basename :: "string \<Rightarrow> string" where
  \<comment> \<open>\<open>os.path.basename\<close>: what follows the last slash\<close>
  "basename p = last (split_on CHR ''/'' [] p)"

definition dirname :: "string \<Rightarrow> string" where
  \<comment> \<open>\<open>os.path.dirname\<close>: what precedes the base name, without its trailing slashes unless it
      consists of slashes only\<close>
  "dirname p = (let head = take (length p - length (basename p)) p in
      if head \<noteq> [] \<and> \<not> list_all (\<lambda>c. c = CHR ''/'') head
      then rev (dropWhile (\<lambda>c. c = CHR ''/'') (rev head)) else head)"

definition path_join :: "string \<Rightarrow> string \<Rightarrow> string" where
  \<comment> \<open>\<open>os.path.join(a, b)\<close>\<close>
  "path_join a b = (if startswith b ''/'' then b
      else if a = [] \<or> endswith a ''/'' then a @ b else a @ ''/'' @ b)"

fun norm_comps :: "bool \<Rightarrow> string list \<Rightarrow> string list \<Rightarrow> string list" where
  \<comment> \<open>the loop of \<open>normpath\<close> over the components; the second argument is \<open>new_comps\<close>\<close>
  "norm_comps rooted new [] = new"
| "norm_comps rooted new (part # parts) =
     (if part = [] \<or> part = ''.'' then norm_comps rooted new parts
      else if part \<noteq> ''..'' \<or> (\<not> rooted \<and> new = []) \<or> (new \<noteq> [] \<and> last new = ''..'')
      then norm_comps rooted (new @ [part]) parts
      else if new \<noteq> [] then norm_comps rooted (butlast new) parts
      else norm_comps rooted new parts)"

fun join_with :: "string \<Rightarrow> string list \<Rightarrow> string" where
  \<comment> \<open>\<open>sep.join(xs)\<close>\<close>
  "join_with sep [] = []"
| "join_with sep [x] = x"
| "join_with sep (x # y # ys) = x @ sep @ join_with sep (y # ys)"

definition normpath :: "string \<Rightarrow> string" where
  \<comment> \<open>\<open>os.path.normpath\<close>\<close>
  "normpath path = (if path = [] then ''.'' else
     (let initial_slashes = (if startswith path ''//'' \<and> \<not> startswith path ''///'' then 2
                             else if startswith path ''/'' then 1 else (0::nat));
          comps = norm_comps (initial_slashes \<noteq> 0) [] (split_on CHR ''/'' [] path);
          p = replicate initial_slashes CHR ''/'' @ join_with ''/'' comps
      in if p = [] then ''.'' else p))"

section \<open>The regular expressions of the source\<close>

text \<open>
  The fixed patterns of the slicer use literals, character classes, sequence, alternation, an
  optional group, greedy repetition of a character class, one capture group and the anchor
  \<open>^\<close>. They are written as terms of \<open>rx\<close> and run by a backtracking matcher that lists the
  ways a pattern matches at a position in the order \<open>re\<close> tries them: the first is the match
  \<open>re\<close> reports.
\<close>

datatype cclass =
    CSpace       \<comment> \<open>\<open>\s\<close>\<close>
  | CIdentStart  \<comment> \<open>\<open>[a-zA-Z_]\<close>\<close>
  | CIdentChar   \<comment> \<open>\<open>[a-zA-Z0-9_]\<close>\<close>
  | CPathChar    \<comment> \<open>\<open>[a-zA-Z0-9_\-\.\/]\<close>\<close>
  | CQuote       \<comment> \<open>\<open>['"]\<close>\<close>
  | CNotQuote    \<comment> \<open>\<open>[^'"]\<close>\<close>

fun cclass_mem :: "cclass \<Rightarrow> char \<Rightarrow> bool" where
  "cclass_mem CSpace c = is_space c"
| "cclass_mem CIdentStart c = (is_alpha c \<or> c = CHR ''_'')"
| "cclass_mem CIdentChar c = (is_alpha c \<or> is_digit c \<or> c = CHR ''_'')"
| "cclass_mem CPathChar c =
     (is_alpha c \<or> is_digit c \<or> c = CHR ''_'' \<or> c = CHR ''-'' \<or> c = CHR ''.'' \<or> c = CHR ''/'')"
| "cclass_mem CQuote c = (c = CHR 0x27 \<or> c = CHR 0x22)"
| "cclass_mem CNotQuote c = (c \<noteq> CHR 0x27 \<and> c \<noteq> CHR 0x22)"

datatype rx =
    Eps                \<comment> \<open>the empty pattern\<close>
  | Lit char           \<comment> \<open>one literal character\<close>
  | Cls cclass         \<comment> \<open>one character of a class\<close>
  | Seq rx rx
  | Alt rx rx          \<comment> \<open>\<open>a|b\<close>, \<open>a\<close> tried first\<close>
  | Star cclass        \<comment> \<open>\<open>c*\<close>, greedy\<close>
  | Grp rx             \<comment> \<open>the capture group\<close>
  | Bol                \<comment> \<open>\<open>^\<close>\<close>

text \<open>
  A matcher state is the position reached in the searched string, the text of the capture
  group if it has been closed, and the rest of the string from that position.
\<close>

type_synonym mstate = "nat \<times> string option \<times> string"

fun star_states :: "cclass \<Rightarrow> nat \<Rightarrow> string option \<Rightarrow> string \<Rightarrow> mstate list" where
  \<comment> \<open>greedy repetition: the longest run first, then shorter ones down to the empty one\<close>
  "star_states k pos g [] = [(pos, g, [])]"
| "star_states k pos g (c # cs) =
     (if cclass_mem k c then star_states k (pos + 1) g cs @ [(pos, g, c # cs)]
      else [(pos, g, c # cs)])"

fun rx_match :: "bool \<Rightarrow> rx \<Rightarrow> nat \<Rightarrow> string option \<Rightarrow> string \<Rightarrow> mstate list" where
  \<comment> \<open>the first argument is the flag \<open>re.IGNORECASE\<close>\<close>
  "rx_match ic Eps pos g s = [(pos, g, s)]"
| "rx_match ic (Lit c) pos g s =
     (case s of [] \<Rightarrow> []
      | x # xs \<Rightarrow> if (if ic then lower x = lower c else x = c) then [(pos + 1, g, xs)] else [])"
| "rx_match ic (Cls k) pos g s =
     (case s of [] \<Rightarrow> [] | x # xs \<Rightarrow> if cclass_mem k x then [(pos + 1, g, xs)] else [])"
| "rx_match ic (Seq a b) pos g s =
     concat (map (\<lambda>(pos', g', s'). rx_match ic b pos' g' s') (rx_match ic a pos g s))"
| "rx_match ic (Alt a b) pos g s = rx_match ic a pos g s @ rx_match ic b pos g s"
| "rx_match ic (Star k) pos g s = star_states k pos g s"
| "rx_match ic (Grp a) pos g s =
     map (\<lambda>(pos', g', s'). (pos', Some (take (pos' - pos) s), s')) (rx_match ic a pos g s)"
| "rx_match ic Bol pos g s = (if pos = 0 then [(pos, g, s)] else [])"

definition group1 :: "string option \<Rightarrow> string" where
  \<comment> \<open>\<open>match.group(1)\<close>; in every pattern of the source the group lies on the only path\<close>
  "group1 g = (case g of None \<Rightarrow> [] | Some x \<Rightarrow> x)"

fun search_from :: "bool \<Rightarrow> rx \<Rightarrow> nat \<Rightarrow> string \<Rightarrow> string option" where
  \<comment> \<open>\<open>pattern.search\<close>: the first match at the leftmost position that has one; the result is
      \<open>group(1)\<close> of that match\<close>
  "search_from ic r pos [] =
     (case rx_match ic r pos None [] of [] \<Rightarrow> None | (e, g, rest) # _ \<Rightarrow> Some (group1 g))"
| "search_from ic r pos (c # cs) =
     (case rx_match ic r pos None (c # cs) of
        [] \<Rightarrow> search_from ic r (pos + 1) cs
      | (e, g, rest) # _ \<Rightarrow> Some (group1 g))"

definition re_search_group :: "bool \<Rightarrow> rx \<Rightarrow> string \<Rightarrow> string option" where
  "re_search_group ic r s = search_from ic r 0 s"

function finditer_from :: "bool \<Rightarrow> rx \<Rightarrow> nat \<Rightarrow> string \<Rightarrow> string list" where
  \<comment> \<open>\<open>re.finditer\<close> and \<open>re.findall\<close> with one group: the matches from left to right, each
      search starting where the last match ended; the result lists \<open>group(1)\<close> of each. No
      pattern of the source matches the empty string; after an empty match the search moves on
      by one character.\<close>
  "finditer_from ic r pos s =
     (case rx_match ic r pos None s of
        [] \<Rightarrow> (case s of [] \<Rightarrow> [] | c # cs \<Rightarrow> finditer_from ic r (pos + 1) cs)
      | (e, g, rest) # _ \<Rightarrow>
          if length rest < length s then group1 g # finditer_from ic r e rest
          else group1 g # (case s of [] \<Rightarrow> [] | c # cs \<Rightarrow> finditer_from ic r (pos + 1) cs))"
  by pat_completeness auto
termination
  by (relation "measure (\<lambda>(ic, r, pos, s). length s)") auto

definition re_findall :: "bool \<Rightarrow> rx \<Rightarrow> string \<Rightarrow> string list" where
  "re_findall ic r s = finditer_from ic r 0 s"

definition seqs :: "rx list \<Rightarrow> rx" where
  "seqs rs = foldr Seq rs Eps"

definition lits :: "string \<Rightarrow> rx" where
  \<comment> \<open>a literal word\<close>
  "lits w = seqs (map Lit w)"

definition opt :: "rx \<Rightarrow> rx" where
  \<comment> \<open>\<open>a?\<close>, greedy\<close>
  "opt a = Alt a Eps"

definition plus :: "cclass \<Rightarrow> rx" where
  \<comment> \<open>\<open>c+\<close>, greedy\<close>
  "plus k = Seq (Cls k) (Star k)"

definition ident :: rx where
  \<comment> \<open>\<open>([a-zA-Z_][a-zA-Z0-9_]*)\<close>\<close>
  "ident = Grp (Seq (Cls CIdentStart) (Star CIdentChar))"

definition func_pattern :: rx where
  \<comment> \<open>\<open>^\s*(?:public|private|protected)?\s*function\s+([a-zA-Z_][a-zA-Z0-9_]*)\s*\(\<close>,
      compiled with \<open>re.IGNORECASE\<close>\<close>
  "func_pattern = seqs [Bol, Star CSpace,
      opt (Alt (lits ''public'') (Alt (lits ''private'') (lits ''protected''))),
      Star CSpace, lits ''function'', plus CSpace, ident, Star CSpace, Lit CHR ''('']"

definition call_patterns :: "rx list" where
  \<comment> \<open>regular, variable, method and static call\<close>
  "call_patterns = [
     seqs [ident, Star CSpace, Lit CHR ''(''],
     seqs [Lit CHR ''$'', ident, Star CSpace, Lit CHR ''(''],
     seqs [lits ''->'', ident, Star CSpace, Lit CHR ''(''],
     seqs [lits ''::'', ident, Star CSpace, Lit CHR ''('']]"

definition include_paren :: "string \<Rightarrow> rx" where
  \<comment> \<open>\<open>kw\s*\(\s*['"]([^'"]+)['"]\s*\)\<close>\<close>
  "include_paren kw = seqs [lits kw, Star CSpace, Lit CHR ''('', Star CSpace, Cls CQuote,
      Grp (plus CNotQuote), Cls CQuote, Star CSpace, Lit CHR '')'']"

definition include_quoted :: "string \<Rightarrow> rx" where
  \<comment> \<open>\<open>kw\s+['"]([^'"]+)['"]\<close>\<close>
  "include_quoted kw = seqs [lits kw, plus CSpace, Cls CQuote, Grp (plus CNotQuote), Cls CQuote]"

definition include_bare :: "string \<Rightarrow> rx" where
  \<comment> \<open>\<open>kw\s+([a-zA-Z0-9_\-\.\/]+\.php)\<close>\<close>
  "include_bare kw = seqs [lits kw, plus CSpace, Grp (Seq (plus CPathChar) (lits ''.php''))]"

definition include_keywords :: "string list" where
  "include_keywords = [''include'', ''include_once'', ''require'', ''require_once'']"

definition include_patterns :: "rx list" where
  \<comment> \<open>the twelve patterns in the order of the source, all used with \<open>re.IGNORECASE\<close>\<close>
  "include_patterns = map include_paren include_keywords @ map include_quoted include_keywords
      @ map include_bare include_keywords"

section \<open>The project tree\<close>

text \<open>
  A run sees the project through \<open>os.walk\<close>, \<open>os.path.exists\<close> and \<open>open\<close>. The tree is
  modelled by the relative paths of its files in the order \<open>os.walk\<close> yields them, and by the
  state of every path \<open>p\<close>, which stands for \<open>os.path.join(src_dir, p)\<close>: missing, present
  but failing to open or read, or readable with its text.
\<close>

datatype file_state = Missing | Unreadable | Text string

record project =
  walk :: "string list"
  file_at :: "string \<Rightarrow> file_state"

definition php_files :: "project \<Rightarrow> string list" where
  \<comment> \<open>the files of the walk that pass \<open>file.endswith('.php')\<close>, by their \<open>rel_path\<close>\<close>
  "php_files fs = filter (\<lambda>rel_path. endswith (basename rel_path) ''.php'') (walk fs)"

subsection \<open>Dictionaries in insertion order\<close>

fun dict_append :: "('k \<times> 'v list) list \<Rightarrow> 'k \<Rightarrow> 'v \<Rightarrow> ('k \<times> 'v list) list" where
  \<comment> \<open>\<open>d[k].append(v)\<close> on a \<open>defaultdict(list)\<close>\<close>
  "dict_append [] k v = [(k, [v])]"
| "dict_append ((k', vs) # d) k v =
     (if k' = k then (k', vs @ [v]) # d else (k', vs) # dict_append d k v)"

fun dict_set :: "('k \<times> 'v) list \<Rightarrow> 'k \<Rightarrow> 'v \<Rightarrow> ('k \<times> 'v) list" where
  \<comment> \<open>\<open>d[k] = v\<close>\<close>
  "dict_set [] k v = [(k, v)]"
| "dict_set ((k', v') # d) k v = (if k' = k then (k', v) # d else (k', v') # dict_set d k v)"

section \<open>Function analysis\<close>

definition span_brackets :: "string option \<Rightarrow> int option \<Rightarrow> int \<Rightarrow> int \<Rightarrow> bool" where
  \<comment> \<open>\<open>current_func and func_start and func_start <= line <= hi\<close>, with the truth values of
      Python: \<open>None\<close>, the empty string and 0 are false\<close>
  "span_brackets current_func func_start line hi =
     (case current_func of None \<Rightarrow> False
      | Some f \<Rightarrow> (case func_start of None \<Rightarrow> False
          | Some s \<Rightarrow> f \<noteq> [] \<and> s \<noteq> 0 \<and> s \<le> line \<and> line \<le> hi))"

fun find_function_loop ::
  "int \<Rightarrow> string option \<Rightarrow> int option \<Rightarrow> (int \<times> string) list
     \<Rightarrow> (string option \<times> int option \<times> int) + (string option \<times> int option)" where
  \<comment> \<open>the loop over \<open>enumerate(lines)\<close>: \<open>Inl\<close> is the \<open>return\<close> inside the loop, \<open>Inr\<close> the
      values of \<open>current_func\<close> and \<open>func_start\<close> when the loop ends\<close>
  "find_function_loop line current_func func_start [] = Inr (current_func, func_start)"
| "find_function_loop line current_func func_start ((i, code_line) # rest) =
     (let line_num = i + 1 in
      case re_search_group True func_pattern code_line of
        None \<Rightarrow> find_function_loop line current_func func_start rest
      | Some name \<Rightarrow>
          if span_brackets current_func func_start line (line_num - 1)
          then Inl (current_func, func_start, line_num - 1)
          else find_function_loop line (Some name) (Some line_num) rest)"

definition find_function_in_lines :: "string list \<Rightarrow> int \<Rightarrow> string option \<times> int option \<times> int" where
  "find_function_in_lines lines line =
     (case find_function_loop line None None (enumerate_from 0 lines) of
        Inl r \<Rightarrow> r
      | Inr (current_func, func_start) \<Rightarrow>
          if span_brackets current_func func_start line (int (length lines))
          then (current_func, func_start, int (length lines))
          else (Some ''global'', Some 1, int (length lines)))"

definition find_function_at_line ::
  "project \<Rightarrow> string \<Rightarrow> int \<Rightarrow> string option \<times> int option \<times> int option" where
  \<comment> \<open>the three components are the function's name, its first and its last line; all three are
      \<open>None\<close> when the file is missing or cannot be read\<close>
  "find_function_at_line fs file_path line =
     (case file_at fs file_path of
        Missing \<Rightarrow> (None, None, None)
      | Unreadable \<Rightarrow> (None, None, None)
      | Text t \<Rightarrow>
          (case find_function_in_lines (readlines t) line of
             (name, start, end_line) \<Rightarrow> (name, start, Some end_line)))"

record call =
  call_function :: string
  call_line :: int
  call_code :: string

record call_site =
  site_function :: string
  site_line :: int
  site_code :: string
  caller_file :: string

definition call_keywords :: "string list" where
  "call_keywords = [''if'', ''while'', ''for'', ''foreach'', ''switch'', ''echo'', ''print'']"

definition line_calls :: "int \<Rightarrow> string \<Rightarrow> call list" where
  \<comment> \<open>the calls of one line: the four patterns in turn, the matches of each from left to right\<close>
  "line_calls line_num line_content =
     concat (map (\<lambda>pattern.
        map (\<lambda>func_name. \<lparr>call_function = func_name, call_line = line_num,
                            call_code = strip line_content\<rparr>)
          (filter (\<lambda>func_name. func_name \<notin> set call_keywords)
             (re_findall False pattern line_content)))
       call_patterns)"

definition extract_function_calls :: "project \<Rightarrow> string \<Rightarrow> call list" where
  "extract_function_calls fs file_path =
     (case file_at fs file_path of
        Missing \<Rightarrow> []
      | Unreadable \<Rightarrow> []
      | Text t \<Rightarrow>
          concat (map (\<lambda>(line_num, line_content). line_calls line_num line_content)
                    (enumerate_from 1 (readlines t))))"

record definition_site =
  def_file :: string
  def_line :: int
  def_code :: string

definition file_definitions ::
  "string \<Rightarrow> string list \<Rightarrow> (string \<times> definition_site list) list
     \<Rightarrow> (string \<times> definition_site list) list" where
  \<comment> \<open>the loop over the lines of one file, appending to \<open>definitions\<close>\<close>
  "file_definitions rel_path lines definitions =
     fold (\<lambda>(line_num, line_content) defs.
        case re_search_group True func_pattern line_content of
          None \<Rightarrow> defs
        | Some func_name \<Rightarrow>
            dict_append defs func_name
              \<lparr>def_file = rel_path, def_line = line_num, def_code = strip line_content\<rparr>)
       (enumerate_from 1 lines) definitions"

definition find_function_definitions :: "project \<Rightarrow> (string \<times> definition_site list) list" where
  "find_function_definitions fs =
     fold (\<lambda>rel_path definitions.
        case file_at fs rel_path of
          Text t \<Rightarrow> file_definitions rel_path (readlines t) definitions
        | _ \<Rightarrow> definitions)
       (php_files fs) []"

definition build_function_call_graph :: "project \<Rightarrow> (string \<times> call_site list) list" where
  "build_function_call_graph fs =
     fold (\<lambda>rel_path call_graph.
        fold (\<lambda>c graph.
           dict_append graph (call_function c)
             \<lparr>site_function = call_function c, site_line = call_line c,
              site_code = call_code c, caller_file = rel_path\<rparr>)
          (extract_function_calls fs rel_path) call_graph)
       (php_files fs) []"

section \<open>Sources and sinks\<close>

text \<open>
  The source and sink patterns come from the configuration; they are regular expressions that
  \<open>re\<close> accepts. Whether \<open>re.search(pattern, line)\<close> finds a match is the parameter
  \<open>re_search\<close> of the scanner.
\<close>

record pattern_match =
  pm_line :: int
  pm_code :: string
  pm_pattern :: string
  pm_file :: "string option"

definition line_matches ::
  "(string \<Rightarrow> string \<Rightarrow> bool) \<Rightarrow> string option \<Rightarrow> string list \<Rightarrow> int \<Rightarrow> string
     \<Rightarrow> pattern_match list" where
  \<comment> \<open>\<open>for pattern in patterns: if re.search(pattern, line_content): append\<close>\<close>
  "line_matches re_search file patterns line_num line_content =
     map (\<lambda>pattern. \<lparr>pm_line = line_num, pm_code = strip line_content, pm_pattern = pattern,
                      pm_file = file\<rparr>)
       (filter (\<lambda>pattern. re_search pattern line_content) patterns)"

definition scan_lines ::
  "(string \<Rightarrow> string \<Rightarrow> bool) \<Rightarrow> string option \<Rightarrow> string list \<Rightarrow> string list \<Rightarrow> string list
     \<Rightarrow> pattern_match list \<times> pattern_match list" where
  \<comment> \<open>the loop over \<open>enumerate(lines, 1)\<close>, appending to the two lists\<close>
  "scan_lines re_search file sources sinks lines =
     fold (\<lambda>(line_num, line_content) (found_sources, found_sinks).
        (found_sources @ line_matches re_search file sources line_num line_content,
         found_sinks @ line_matches re_search file sinks line_num line_content))
       (enumerate_from 1 lines) ([], [])"

definition analyze_sources_sinks ::
  "project \<Rightarrow> (string \<Rightarrow> string \<Rightarrow> bool) \<Rightarrow> string \<Rightarrow> string list \<Rightarrow> string list
     \<Rightarrow> pattern_match list \<times> pattern_match list" where
  "analyze_sources_sinks fs re_search file_path sources sinks =
     (case file_at fs file_path of
        Missing \<Rightarrow> ([], [])
      | Unreadable \<Rightarrow> ([], [])
      | Text t \<Rightarrow> scan_lines re_search None sources sinks (readlines t))"

definition analyze_sources_sinks_in_project ::
  "project \<Rightarrow> (string \<Rightarrow> string \<Rightarrow> bool) \<Rightarrow> string list \<Rightarrow> string list
     \<Rightarrow> (string \<times> pattern_match list) list \<times> (string \<times> pattern_match list) list" where
  "analyze_sources_sinks_in_project fs re_search sources sinks =
     fold (\<lambda>rel_path (all_sources, all_sinks).
        case file_at fs rel_path of
          Text t \<Rightarrow>
            (case scan_lines re_search (Some rel_path) sources sinks (readlines t) of
               (file_sources, file_sinks) \<Rightarrow>
                 (if file_sources \<noteq> [] then dict_set all_sources rel_path file_sources
                  else all_sources,
                  if file_sinks \<noteq> [] then dict_set all_sinks rel_path file_sinks
                  else all_sinks))
        | _ \<Rightarrow> (all_sources, all_sinks))
       (php_files fs) ([], [])"

section \<open>Include dependencies\<close>

definition resolve_include :: "string \<Rightarrow> string \<Rightarrow> string" where
  \<comment> \<open>the path an included file resolves to, from the including file's \<open>rel_path\<close>\<close>
  "resolve_include rel_path included_file =
     (if startswith included_file ''./'' \<or> startswith included_file ''../''
      then normpath (path_join (dirname rel_path) included_file)
      else if \<not> startswith included_file ''/''
      then normpath (path_join (dirname rel_path) included_file)
      else included_file)"

definition include_edge :: "project \<Rightarrow> string \<Rightarrow> string \<Rightarrow> string list" where
  \<comment> \<open>what one match of an include pattern appends to \<open>dependencies[rel_path]\<close>: nothing, or
      one path\<close>
  "include_edge fs rel_path m =
     (let included_file = strip m in
      if included_file \<noteq> [] \<and> \<not> startswith included_file ''$''
      then (let resolved = resolve_include rel_path included_file in
            if file_at fs resolved \<noteq> Missing then [resolved] else [included_file])
      else [])"

definition file_includes :: "project \<Rightarrow> string \<Rightarrow> string \<Rightarrow> string list" where
  \<comment> \<open>everything one file appends, pattern by pattern and match by match\<close>
  "file_includes fs rel_path content =
     concat (map (\<lambda>pattern. concat (map (include_edge fs rel_path) (re_findall True pattern content)))
               include_patterns)"

definition find_include_dependencies :: "project \<Rightarrow> (string \<times> string list) list" where
  "find_include_dependencies fs =
     fold (\<lambda>rel_path dependencies.
        case file_at fs rel_path of
          Text content \<Rightarrow>
            fold (\<lambda>edge deps. dict_append deps rel_path edge)
              (file_includes fs rel_path content) dependencies
        | _ \<Rightarrow> dependencies)
       (php_files fs) []"

section \<open>The analysis pipeline\<close>

text \<open>
  Joern is an external program. What its three steps did in a run is an input of the model:
  each step either raised an exception or returned its value.
\<close>

datatype exn = RuntimeError string | UnboundLocalError string | OtherException string

record joern =
  detect_joern_dir :: "exn + string"
  gen_cpg :: "exn + string"
  run_joern_slice :: "exn + string list"

record taint_path =
  source_file :: string
  source_line :: int
  source_sources :: "pattern_match list"
  sink_file :: string
  sink_line :: int
  sink_code :: string
  connection_type :: string
  include_chain :: "string list"

record target_function =
  tf_name :: string
  tf_file :: string
  tf_start_line :: "int option"
  tf_end_line :: "int option"
  tf_sources :: "pattern_match list"
  tf_sinks :: "pattern_match list"

record called_from =
  cf_file :: string
  cf_line :: int
  cf_code :: string

record calling_function =
  cg_name :: string
  cg_file :: string
  cg_call_line :: int
  cg_call_code :: string

record called_function =
  cd_name :: string
  cd_file :: string
  cd_definition_line :: int
  cd_definition_code :: string

datatype function_chain =
    CalledFrom target_function called_from
  | Calls calling_function called_function

record target =
  target_file :: string
  target_line :: int
  target_func :: string
  target_start_line :: "int option"
  target_end_line :: "int option"

record summary =
  total_chains :: nat
  cross_file_paths_count :: nat
  project_sources :: nat
  project_sinks :: nat
  target_sources_count :: nat
  target_sinks_count :: nat
  joern_usages_count :: nat

record document =
  doc_target :: target
  joern_usages :: "string list"
  function_chains :: "function_chain list"
  cross_file_taint_paths :: "taint_path list"
  all_sources :: "(string \<times> pattern_match list) list"
  all_sinks :: "(string \<times> pattern_match list) list"
  include_dependencies :: "(string \<times> string list) list"
  sources_in_target :: "pattern_match list"
  sinks_in_target :: "pattern_match list"
  doc_summary :: summary

datatype outcome = Completed | SysExit int | Uncaught exn

record run =
  written :: "document option"   \<comment> \<open>the result document, once \<open>json.dump\<close> has written it\<close>
  outcome :: outcome             \<comment> \<open>how \<open>main\<close> ends\<close>

definition joern_step :: "joern \<Rightarrow> string list \<times> string option" where
  \<comment> \<open>the \<open>try\<close> block of step 3: the usages, and \<open>cpg_file\<close> if the block has assigned it\<close>
  "joern_step j =
     (case detect_joern_dir j of
        Inl e \<Rightarrow> ([], None)
      | Inr joern_dir \<Rightarrow>
          (case gen_cpg j of
             Inl e \<Rightarrow> ([], None)
           | Inr cpg_file \<Rightarrow>
               (case run_joern_slice j of
                  Inl e \<Rightarrow> ([], Some cpg_file)
                | Inr usages \<Rightarrow> (usages, Some cpg_file))))"

definition includes_target :: "string \<Rightarrow> string list \<Rightarrow> bool" where
  \<comment> \<open>the inner loop of step 8 over the dependencies of one file, up to its \<open>break\<close>\<close>
  "includes_target args_file deps =
     list_ex (\<lambda>dep. args_file = dep \<or> basename args_file = dep
                     \<or> basename args_file = basename dep) deps"

definition files_including_target :: "string \<Rightarrow> (string \<times> string list) list \<Rightarrow> string list" where
  "files_including_target args_file include_deps =
     map fst (filter (\<lambda>(file, deps). includes_target args_file deps) include_deps)"

definition sink_path :: "string \<Rightarrow> int \<Rightarrow> pattern_match list \<Rightarrow> string \<Rightarrow> pattern_match \<Rightarrow> taint_path" where
  "sink_path args_file args_line target_sources including_file sink =
     \<lparr>source_file = args_file, source_line = args_line, source_sources = target_sources,
      sink_file = including_file, sink_line = pm_line sink, sink_code = pm_code sink,
      connection_type = ''include_dependency'', include_chain = [args_file, including_file]\<rparr>"

definition build_cross_file_paths ::
  "string \<Rightarrow> int \<Rightarrow> pattern_match list \<Rightarrow> (string \<times> string list) list
     \<Rightarrow> (string \<times> pattern_match list) list \<Rightarrow> taint_path list" where
  "build_cross_file_paths args_file args_line target_sources include_deps sinks_by_file =
     concat (map (\<lambda>including_file.
        case map_of sinks_by_file including_file of
          None \<Rightarrow> []
        | Some sinks \<Rightarrow> map (sink_path args_file args_line target_sources including_file) sinks)
       (files_including_target args_file include_deps))"

definition called_from_chains ::
  "target_function \<Rightarrow> string \<Rightarrow> (string \<times> call_site list) list \<Rightarrow> function_chain list" where
  "called_from_chains tf func_name call_graph =
     (case map_of call_graph func_name of
        None \<Rightarrow> []
      | Some sites \<Rightarrow>
          map (\<lambda>call_info. CalledFrom tf
                 \<lparr>cf_file = caller_file call_info, cf_line = site_line call_info,
                  cf_code = site_code call_info\<rparr>) sites)"

definition calls_chains ::
  "string \<Rightarrow> string \<Rightarrow> call list \<Rightarrow> (string \<times> definition_site list) list \<Rightarrow> function_chain list" where
  "calls_chains func_name args_file target_calls function_defs =
     concat (map (\<lambda>c.
        case map_of function_defs (call_function c) of
          None \<Rightarrow> []
        | Some defs \<Rightarrow>
            map (\<lambda>d. Calls
                   \<lparr>cg_name = func_name, cg_file = args_file, cg_call_line = call_line c,
                    cg_call_code = call_code c\<rparr>
                   \<lparr>cd_name = call_function c, cd_file = def_file d,
                    cd_definition_line = def_line d, cd_definition_code = def_code d\<rparr>) defs)
       target_calls)"

definition count_all :: "('k \<times> 'v list) list \<Rightarrow> nat" where
  \<comment> \<open>\<open>sum(len(s) for s in d.values())\<close>\<close>
  "count_all d = sum_list (map (\<lambda>(k, vs). length vs) d)"

definition main ::
  "project \<Rightarrow> (string \<Rightarrow> string \<Rightarrow> bool) \<Rightarrow> joern \<Rightarrow> string \<Rightarrow> int \<Rightarrow> string list \<Rightarrow> string list
     \<Rightarrow> run" where
  \<comment> \<open>\<open>main\<close> after the arguments are parsed and the patterns loaded: \<open>args_file\<close> and
      \<open>args_line\<close> are the target, \<open>sources\<close> and \<open>sinks\<close> the enabled patterns\<close>
  "main fs re_search j args_file args_line sources sinks =
     (case find_function_at_line fs args_file args_line of
        (func_name_opt, func_start, func_end) \<Rightarrow>
     (case func_name_opt of
        None \<Rightarrow> \<lparr>written = None, outcome = SysExit 1\<rparr>
      | Some func_name \<Rightarrow>
     if func_name = [] then \<lparr>written = None, outcome = SysExit 1\<rparr>
     else
     (case joern_step j of (usages, cpg_file) \<Rightarrow>
     (let function_defs = find_function_definitions fs;
          call_graph = build_function_call_graph fs in
      case analyze_sources_sinks_in_project fs re_search sources sinks of
        (srcs_by_file, sinks_by_file) \<Rightarrow>
     (case analyze_sources_sinks fs re_search args_file sources sinks of
        (target_sources, target_sinks) \<Rightarrow>
     (let include_deps = find_include_dependencies fs;
          cross_file_paths =
            build_cross_file_paths args_file args_line target_sources include_deps sinks_by_file;
          chains =
            called_from_chains
              \<lparr>tf_name = func_name, tf_file = args_file, tf_start_line = func_start,
               tf_end_line = func_end, tf_sources = target_sources, tf_sinks = target_sinks\<rparr>
              func_name call_graph
            @ calls_chains func_name args_file (extract_function_calls fs args_file) function_defs;
          result =
            \<lparr>doc_target = \<lparr>target_file = args_file, target_line = args_line,
                            target_func = func_name, target_start_line = func_start,
                            target_end_line = func_end\<rparr>,
             joern_usages = usages,
             function_chains = chains,
             cross_file_taint_paths = cross_file_paths,
             all_sources = srcs_by_file,
             all_sinks = sinks_by_file,
             include_dependencies = include_deps,
             sources_in_target = target_sources,
             sinks_in_target = target_sinks,
             doc_summary =
               \<lparr>total_chains = length chains,
                cross_file_paths_count = length cross_file_paths,
                project_sources = count_all srcs_by_file,
                project_sinks = count_all sinks_by_file,
                target_sources_count = length target_sources,
                target_sinks_count = length target_sinks,
                joern_usages_count = length usages\<rparr>\<rparr>
      in \<lparr>written = Some result,
          outcome = (case cpg_file of
                       None \<Rightarrow> Uncaught (UnboundLocalError ''cpg_file'')
                     | Some f \<Rightarrow> Completed)\<rparr>))))))"


section \<open>Concrete trees and auxiliary notions\<close>

definition tree_of :: "(string \<times> file_state) list \<Rightarrow> project" where
  \<comment> \<open>the tree that holds the listed files, walked in the order of the list\<close>
  "tree_of files = \<lparr>walk = map fst files,
     file_at = (\<lambda>p. case map_of files p of None \<Rightarrow> Missing | Some st \<Rightarrow> st)\<rparr>"

definition unlines :: "string list \<Rightarrow> string" where
  \<comment> \<open>a text given by its lines, each ended by a newline\<close>
  "unlines ls = concat (map (\<lambda>l. l @ [CHR 0x0A]) ls)"

definition two_functions :: string where
  "two_functions = unlines [''<?php'', ''function foo($x) {'', ''  return $x;'', ''}'',
     ''function bar() {'', ''}'']"

fun has_grp :: "rx \<Rightarrow> bool" where
  \<comment> \<open>whether the capture group occurs in a pattern\<close>
  "has_grp (Grp a) = True"
| "has_grp (Seq a b) = (has_grp a \<or> has_grp b)"
| "has_grp (Alt a b) = (has_grp a \<or> has_grp b)"
| "has_grp r = False"

definition all_line_matches ::
  "(string \<Rightarrow> string \<Rightarrow> bool) \<Rightarrow> string option \<Rightarrow> string list \<Rightarrow> (int \<times> string) list
     \<Rightarrow> pattern_match list" where
  "all_line_matches re_search file patterns numbered =
     concat (map (\<lambda>(line_num, line_content).
                    line_matches re_search file patterns line_num line_content) numbered)"

definition lookup_list :: "('k \<times> 'v list) list \<Rightarrow> 'k \<Rightarrow> 'v list" where
  "lookup_list d k = (case map_of d k of None \<Rightarrow> [] | Some vs \<Rightarrow> vs)"

definition scan_step ::
  "project \<Rightarrow> (string \<Rightarrow> string \<Rightarrow> bool) \<Rightarrow> string list \<Rightarrow> string list \<Rightarrow> string
     \<Rightarrow> (string \<times> pattern_match list) list \<times> (string \<times> pattern_match list) list
     \<Rightarrow> (string \<times> pattern_match list) list \<times> (string \<times> pattern_match list) list" where
  "scan_step fs re_search sources sinks =
     (\<lambda>rel_path (srcs_by_file, sinks_by_file).
        case file_at fs rel_path of
          Text t \<Rightarrow>
            (case scan_lines re_search (Some rel_path) sources sinks (readlines t) of
               (file_sources, file_sinks) \<Rightarrow>
                 (if file_sources \<noteq> [] then dict_set srcs_by_file rel_path file_sources
                  else srcs_by_file,
                  if file_sinks \<noteq> [] then dict_set sinks_by_file rel_path file_sinks
                  else sinks_by_file))
        | _ \<Rightarrow> (srcs_by_file, sinks_by_file))"

definition file_matches ::
  "project \<Rightarrow> (string \<Rightarrow> string \<Rightarrow> bool) \<Rightarrow> string list \<Rightarrow> string \<Rightarrow> pattern_match list" where
  "file_matches fs re_search patterns rel_path =
     (case file_at fs rel_path of
        Text t \<Rightarrow> all_line_matches re_search (Some rel_path) patterns (enumerate_from 1 (readlines t))
      | _ \<Rightarrow> [])"

fun occurs_in :: "string \<Rightarrow> string \<Rightarrow> bool" where
  "occurs_in p [] = (p = [])"
| "occurs_in p (c # cs) = (startswith (c # cs) p \<or> occurs_in p cs)"

definition echo_get :: string where
  "echo_get = unlines [''<?php'', ''echo _GET;'']"

definition one_unreadable :: project where
  "one_unreadable = tree_of [(''a.php'', Text echo_get), (''b.php'', Unreadable)]"

definition target_function_of :: "document \<Rightarrow> target_function" where
  "target_function_of doc =
     \<lparr>tf_name = target_func (doc_target doc), tf_file = target_file (doc_target doc),
      tf_start_line = target_start_line (doc_target doc),
      tf_end_line = target_end_line (doc_target doc),
      tf_sources = sources_in_target doc, tf_sinks = sinks_in_target doc\<rparr>"

definition joern_absent :: joern where
  "joern_absent = \<lparr>detect_joern_dir = Inl (RuntimeError ''Joern directory not found''),
     gen_cpg = Inr ''function_analysis.bin'', run_joern_slice = Inr []\<rparr>"

definition included_target :: project where
  "included_target = tree_of
     [(''a.php'', Text (unlines [''<?php'', '''', '''', '''', ''function foo() {'', '''', '''', '''',
          '''', ''  $x = 1;'', '''', '''', '''', '''', ''}''])),
      (''b.php'', Text (unlines [''<?php'', ''include 'a.php';'', ''system(1);'']))]"



fun called_from_of :: "function_chain \<Rightarrow> called_from list" where
  "called_from_of (CalledFrom tf cf) = [cf]"
| "called_from_of (Calls cg cd) = []"

definition run_called_from :: "run \<Rightarrow> called_from list" where
  "run_called_from r =
     (case written r of None \<Rightarrow> [] | Some doc \<Rightarrow> concat (map called_from_of (function_chains doc)))"

definition joern_present :: joern where
  "joern_present = \<lparr>detect_joern_dir = Inr ''/opt/joern'',
     gen_cpg = Inr ''function_analysis.bin'', run_joern_slice = Inr []\<rparr>"

definition called_once :: project where
  "called_once = tree_of
     [(''a.php'', Text (unlines [''<?php'', '''', '''', '''', ''function foo() {'', ''  return 1;'',
          ''}''])),
      (''c.php'', Text (unlines (''<?php'' # replicate 18 [] @ [''foo();''])))]"

definition site_of :: "string \<Rightarrow> call \<Rightarrow> call_site" where
  "site_of rel_path c =
     \<lparr>site_function = call_function c, site_line = call_line c, site_code = call_code c,
      caller_file = rel_path\<rparr>"

definition call_tail :: rx where
  "call_tail = Seq (Star CSpace) (Seq (Lit CHR ''('') Eps)"

definition free_call :: rx where
  "free_call = Seq ident call_tail"

fun ident_call :: "string \<Rightarrow> (string \<times> string) option" where
  "ident_call [] = None"
| "ident_call (c # cs) =
     (if cclass_mem CIdentStart c
      then (case dropWhile is_space (dropWhile (cclass_mem CIdentChar) cs) of
              [] \<Rightarrow> None
            | x # r \<Rightarrow> if x = CHR ''('' then Some (c # takeWhile (cclass_mem CIdentChar) cs, r)
                       else None)
      else None)"

definition sigil_pattern :: "rx \<Rightarrow> string \<Rightarrow> bool" where
  "sigil_pattern q sg \<longleftrightarrow>
     sg \<noteq> [] \<and> (\<forall>c\<in>set sg. \<not> cclass_mem CIdentChar c \<and> \<not> is_space c \<and> c \<noteq> CHR ''('')
     \<and> (\<forall>pos g s. rx_match False q pos g s
           = (if startswith s sg then rx_match False free_call (pos + length sg) g (drop (length sg) s)
              else []))"

definition pattern_calls :: "int \<Rightarrow> string \<Rightarrow> rx \<Rightarrow> call list" where
  "pattern_calls line_num line_content pattern =
     map (\<lambda>func_name. \<lparr>call_function = func_name, call_line = line_num,
                         call_code = strip line_content\<rparr>)
       (filter (\<lambda>func_name. func_name \<notin> set call_keywords)
          (re_findall False pattern line_content))"

definition method_call :: string where
  "method_call = unlines [''<?php'', ''$obj->run(1);'']"

fun rx_chars :: "bool \<Rightarrow> rx \<Rightarrow> char \<Rightarrow> bool" where
  \<comment> \<open>whether a pattern has an atom that can consume the character\<close>
  "rx_chars ic Eps x = False"
| "rx_chars ic (Lit c) x = (if ic then lower x = lower c else x = c)"
| "rx_chars ic (Cls k) x = cclass_mem k x"
| "rx_chars ic (Seq a b) x = (rx_chars ic a x \<or> rx_chars ic b x)"
| "rx_chars ic (Alt a b) x = (rx_chars ic a x \<or> rx_chars ic b x)"
| "rx_chars ic (Star k) x = cclass_mem k x"
| "rx_chars ic (Grp a) x = rx_chars ic a x"
| "rx_chars ic Bol x = False"

definition included_three_ways :: project where
  \<comment> \<open>the target \<open>lib/a.php\<close>; \<open>b.php\<close> and \<open>f.php\<close> include it by a path that resolves,
      \<open>c.php\<close> by its file name, \<open>d.php\<close> by a path that does not resolve and ends in its
      file name; \<open>e.php\<close> includes another file; only \<open>f.php\<close> has no sink\<close>
  "included_three_ways = tree_of
     [(''b.php'', Text (unlines [''<?php'', ''include 'lib/a.php';'', ''system(1);''])),
      (''c.php'', Text (unlines [''<?php'', ''include 'a.php';'', ''system(2);''])),
      (''d.php'', Text (unlines [''<?php'', ''include 'old/a.php';'', ''system(3);''])),
      (''e.php'', Text (unlines [''<?php'', ''include 'other.php';'', ''system(4);''])),
      (''f.php'', Text (unlines [''<?php'', ''include 'lib/a.php';''])),
      (''lib/a.php'', Text (unlines [''<?php'', '''', '''', '''', ''function foo() {'', '''', '''',
          '''', '''', ''  $x = 1;'', '''', '''', '''', '''', ''}'']))]"


section \<open>Properties of the matcher\<close>

lemma star_states_sound:
  "(p', g', s') \<in> set (star_states k p g s) \<Longrightarrow> g' = g \<and> p \<le> p' \<and> s' = drop (p' - p) s \<and> p' - p \<le> length s"
proof (induction k p g s rule: star_states.induct)
  case (1 k pos g)
  then show ?case by simp
next
  case (2 k pos g c cs)
  show ?case
  proof (cases "cclass_mem k c \<and> (p', g', s') \<in> set (star_states k (pos + 1) g cs)")
    case True
    with 2 have "g' = g \<and> pos + 1 \<le> p' \<and> s' = drop (p' - (pos + 1)) cs \<and> p' - (pos + 1) \<le> length cs" by simp
    then show ?thesis by (auto simp: drop_Cons' )
  next
    case False
    with 2(2) have "(p', g', s') = (pos, g, c # cs)" by (auto split: if_splits)
    then show ?thesis by simp
  qed
qed

lemma rx_match_sound:
  "(p', g', s') \<in> set (rx_match ic r p g s) \<Longrightarrow> p \<le> p' \<and> s' = drop (p' - p) s \<and> p' - p \<le> length s"
proof (induction r arbitrary: p g s p' g' s')
  case Eps then show ?case by simp
next
  case (Lit c) then show ?case by (auto split: list.splits if_splits)
next
  case (Cls k) then show ?case by (auto split: list.splits if_splits)
next
  case (Seq a b)
  from Seq.prems obtain p1 g1 s1 where m1: "(p1, g1, s1) \<in> set (rx_match ic a p g s)"
    and m2: "(p', g', s') \<in> set (rx_match ic b p1 g1 s1)" by auto
  from Seq.IH(1)[OF m1] have a: "p \<le> p1" "s1 = drop (p1 - p) s" "p1 - p \<le> length s" by auto
  from Seq.IH(2)[OF m2] have b: "p1 \<le> p'" "s' = drop (p' - p1) s1" "p' - p1 \<le> length s1" by auto
  from a b show ?case by (auto simp: )
next
  case (Alt a b) then show ?case by auto
next
  case (Star k) then show ?case using star_states_sound by auto
next
  case (Grp a) then show ?case by auto
next
  case Bol then show ?case by (auto split: if_splits)
qed

lemma rx_match_keeps_group:
  "\<not> has_grp r \<Longrightarrow> (p', g', s') \<in> set (rx_match ic r p g s) \<Longrightarrow> g' = g"
proof (induction r arbitrary: p g s p' g' s')
  case (Seq a b)
  from Seq.prems obtain p1 g1 s1 where m1: "(p1, g1, s1) \<in> set (rx_match ic a p g s)"
    and m2: "(p', g', s') \<in> set (rx_match ic b p1 g1 s1)" by auto
  with Seq show ?case by fastforce
next
  case (Star k) then show ?case using star_states_sound by auto
qed (auto split: list.splits if_splits)

lemma ident_group:
  assumes "(p', g', s') \<in> set (rx_match ic ident p g s)"
  shows "\<exists>x. g' = Some x \<and> x \<noteq> []"
proof -
  from assms obtain g1 where m: "(p', g1, s') \<in> set (rx_match ic (Seq (Cls CIdentStart) (Star CIdentChar)) p g s)"
    and g': "g' = Some (take (p' - p) s)" by (auto simp: ident_def)
  from m obtain c cs where s: "s = c # cs" and "(p', g1, s') \<in> set (star_states CIdentChar (p + 1) g cs)"
    by (auto split: list.splits if_splits)
  then have "p + 1 \<le> p'" using star_states_sound by blast
  with s g' show ?thesis by auto
qed



lemma seqs_Cons: "seqs (r # rs) = Seq r (seqs rs)"
  by (simp add: seqs_def)

lemma seqs_Nil: "seqs [] = Eps"
  by (simp add: seqs_def)

lemma rx_match_Seq_iff:
  "x \<in> set (rx_match ic (Seq a b) p g s) \<longleftrightarrow>
     (\<exists>p1 g1 s1. (p1, g1, s1) \<in> set (rx_match ic a p g s) \<and> x \<in> set (rx_match ic b p1 g1 s1))"
  by auto

lemma call_tail_keeps_group:
  assumes "(p', g', s') \<in> set (rx_match ic (Seq (Star CSpace) (Seq (Lit CHR ''('') Eps)) p g s)"
  shows "g' = g"
proof -
  have "\<not> has_grp (Seq (Star CSpace) (Seq (Lit CHR ''('') Eps))" by simp
  then show ?thesis using assms by (rule rx_match_keeps_group)
qed

lemma ident_then_tail_group:
  assumes "(p', g', s') \<in> set (rx_match ic (Seq ident (Seq (Star CSpace) (Seq (Lit CHR ''('') Eps))) p g s)"
  shows "\<exists>x. g' = Some x \<and> x \<noteq> []"
proof -
  from assms obtain p1 g1 s1 where a: "(p1, g1, s1) \<in> set (rx_match ic ident p g s)"
    and b: "(p', g', s') \<in> set (rx_match ic (Seq (Star CSpace) (Seq (Lit CHR ''('') Eps)) p1 g1 s1)"
    unfolding rx_match_Seq_iff by blast
  from b have "g' = g1" by (rule call_tail_keeps_group)
  with ident_group[OF a] show ?thesis by simp
qed

lemma Seq_last_group:
  assumes "(p', g', s') \<in> set (rx_match ic (Seq a b) p g s)"
    and "\<And>p g s. (p', g', s') \<in> set (rx_match ic b p g s) \<Longrightarrow> Q"
  shows Q
  using assms unfolding rx_match_Seq_iff by blast

lemma func_pattern_group:
  assumes "(p', g', s') \<in> set (rx_match ic func_pattern p g s)"
  shows "\<exists>x. g' = Some x \<and> x \<noteq> []"
proof -
  let ?tail = "Seq ident (Seq (Star CSpace) (Seq (Lit CHR ''('') Eps))"
  have fp: "func_pattern = Seq Bol (Seq (Star CSpace) (Seq (opt (Alt (lits ''public'') (Alt (lits ''private'') (lits ''protected''))))
      (Seq (Star CSpace) (Seq (lits ''function'') (Seq (plus CSpace) ?tail)))))"
    by (simp add: func_pattern_def seqs_Cons seqs_Nil)
  have "\<exists>p g s. (p', g', s') \<in> set (rx_match ic ?tail p g s)"
    using assms unfolding fp
    apply -
    apply (erule Seq_last_group)
    apply (erule Seq_last_group)
    apply (erule Seq_last_group)
    apply (erule Seq_last_group)
    apply (erule Seq_last_group)
    apply (erule Seq_last_group)
    apply blast
    done
  then show ?thesis using ident_then_tail_group by blast
qed

lemma search_from_group:
  assumes "search_from ic r p s = Some name"
  shows "\<exists>p0 s0 p' g' s'. (p', g', s') \<in> set (rx_match ic r p0 None s0) \<and> name = group1 g'"
  using assms
proof (induction s arbitrary: p)
  case Nil
  show ?case
  proof (cases "rx_match ic r p None []")
    case Nil
    with Nil.prems show ?thesis by simp
  next
    case (Cons m ms)
    obtain e g rest where m: "m = (e, g, rest)" by (cases m)
    from Cons m Nil.prems have "name = group1 g" by simp
    moreover have "(e, g, rest) \<in> set (rx_match ic r p None [])" using Cons m by simp
    ultimately show ?thesis by blast
  qed
next
  case (Cons c cs)
  show ?case
  proof (cases "rx_match ic r p None (c # cs)")
    case Nil
    with Cons.prems have "search_from ic r (p + 1) cs = Some name" by simp
    then show ?thesis by (rule Cons.IH)
  next
    case (Cons m ms)
    obtain e g rest where m: "m = (e, g, rest)" by (cases m)
    from Cons m Cons.prems have "name = group1 g" by simp
    moreover have "(e, g, rest) \<in> set (rx_match ic r p None (c # cs))" using Cons m by simp
    ultimately show ?thesis by blast
  qed
qed

lemma func_name_nonempty:
  assumes "re_search_group True func_pattern l = Some name"
  shows "name \<noteq> []"
proof -
  from assms obtain p0 s0 p' g' s' where
    m: "(p', g', s') \<in> set (rx_match True func_pattern p0 None s0)" and n: "name = group1 g'"
    unfolding re_search_group_def by (blast dest: search_from_group)
  from func_pattern_group[OF m] n show ?thesis by (auto simp: group1_def)
qed


section \<open>Matches of the call patterns\<close>

lemma space_not_paren: "is_space c \<Longrightarrow> c \<noteq> CHR ''(''"
  by (auto simp: is_space_def Let_def)

lemma ident_char_not_space: "cclass_mem CIdentChar c \<Longrightarrow> \<not> is_space c"
  by (auto simp: is_space_def is_alpha_def is_digit_def Let_def)

lemma ident_char_not_paren: "cclass_mem CIdentChar c \<Longrightarrow> c \<noteq> CHR ''(''"
  by (auto simp: is_alpha_def is_digit_def Let_def)

lemma ident_start_char: "cclass_mem CIdentStart c \<Longrightarrow> cclass_mem CIdentChar c"
  by auto

lemma star_then:
  assumes "\<And>p c r. cclass_mem k c \<Longrightarrow> K (p, g, c # r) = []"
  shows "concat (map K (star_states k pos g s))
           = K (pos + length (takeWhile (cclass_mem k) s), g, dropWhile (cclass_mem k) s)"
proof (induction s arbitrary: pos)
  case Nil
  show ?case by simp
next
  case (Cons c cs)
  show ?case
  proof (cases "cclass_mem k c")
    case True
    then show ?thesis using Cons[of "pos + 1"] assms[OF True] by simp
  next
    case False
    then show ?thesis by simp
  qed
qed

lemma paren_match:
  "rx_match False (Seq (Lit CHR ''('') Eps) p g s
     = (case s of [] \<Rightarrow> [] | x # r \<Rightarrow> if x = CHR ''('' then [(p + 1, g, r)] else [])"
  by (simp split: list.splits)

lemma tail_match:
  "rx_match False call_tail pos g s
     = (case dropWhile is_space s of
          [] \<Rightarrow> []
        | x # r \<Rightarrow> if x = CHR ''('' then [(pos + length (takeWhile is_space s) + 1, g, r)] else [])"
proof -
  define K where "K = (\<lambda>st :: mstate. case st of (p, g', s') \<Rightarrow> rx_match False (Seq (Lit CHR ''('') Eps) p g' s')"
  have fail: "\<And>p c r. cclass_mem CSpace c \<Longrightarrow> K (p, g, c # r) = []"
  proof -
    fix p c r assume "cclass_mem CSpace c"
    then have "c \<noteq> CHR ''(''" using space_not_paren by simp
    then show "K (p, g, c # r) = []" unfolding K_def by (simp add: paren_match del: rx_match.simps)
  qed
  have "rx_match False call_tail pos g s = concat (map K (star_states CSpace pos g s))"
    unfolding K_def call_tail_def by (simp only: rx_match.simps(4) rx_match.simps(6))
  also have "\<dots> = K (pos + length (takeWhile (cclass_mem CSpace) s), g, dropWhile (cclass_mem CSpace) s)"
    by (rule star_then[of CSpace K g, OF fail])
  also have "cclass_mem CSpace = is_space" by (rule ext) simp
  finally show ?thesis unfolding K_def by (simp add: paren_match del: rx_match.simps split: list.splits)
qed

lemma tail_match_ident_char:
  "cclass_mem CIdentChar c \<Longrightarrow> rx_match False call_tail pos g (c # r) = []"
  unfolding tail_match using ident_char_not_space ident_char_not_paren by simp

lemma ident_match:
  "rx_match False ident pos g s
     = (case s of [] \<Rightarrow> []
        | c # cs \<Rightarrow> if cclass_mem CIdentStart c
            then map (\<lambda>(p', g', s'). (p', Some (take (p' - pos) s), s'))
                   (star_states CIdentChar (pos + 1) g cs)
            else [])"
  by (simp add: ident_def split: list.splits)

lemma free_match_unfold:
  "rx_match False free_call pos g s
     = concat (map (\<lambda>(p', g', s'). rx_match False call_tail p' g' s') (rx_match False ident pos g s))"
  unfolding free_call_def by (simp only: rx_match.simps(4))

lemma free_match:
  "rx_match False free_call pos g s
     = (case ident_call s of
          None \<Rightarrow> []
        | Some (n, r) \<Rightarrow> [(pos + (length s - length r), Some n, r)])"
proof (cases s)
  case Nil
  then show ?thesis unfolding free_match_unfold ident_match by simp
next
  case (Cons c cs)
  show ?thesis
  proof (cases "cclass_mem CIdentStart c")
    case False
    then show ?thesis using Cons unfolding free_match_unfold ident_match by simp
  next
    case True
    define K where "K = (\<lambda>st :: mstate. case st of (p', g', s') \<Rightarrow>
        rx_match False call_tail p' (Some (take (p' - pos) (c # cs))) s')"
    have fail: "\<And>p x r. cclass_mem CIdentChar x \<Longrightarrow> K (p, g, x # r) = []"
      unfolding K_def by (simp only: prod.case tail_match_ident_char)
    have "rx_match False free_call pos g (c # cs)
            = concat (map K (star_states CIdentChar (pos + 1) g cs))"
      unfolding free_match_unfold ident_match K_def
      using True
      by (simp only: list.case if_True map_map comp_def case_prod_unfold fst_conv snd_conv)
    also have "\<dots> = K (pos + 1 + length (takeWhile (cclass_mem CIdentChar) cs), g,
                          dropWhile (cclass_mem CIdentChar) cs)"
      by (rule star_then[of CIdentChar K g, OF fail])
    finally have eq: "rx_match False free_call pos g (c # cs)
        = rx_match False call_tail (pos + 1 + length (takeWhile (cclass_mem CIdentChar) cs))
            (Some (c # takeWhile (cclass_mem CIdentChar) cs)) (dropWhile (cclass_mem CIdentChar) cs)"
      unfolding K_def by (simp add: takeWhile_eq_take[symmetric])
    define d1 where "d1 = dropWhile (cclass_mem CIdentChar) cs"
    define t1 where "t1 = takeWhile (cclass_mem CIdentChar) cs"
    have "cs = t1 @ d1" unfolding t1_def d1_def by simp
    moreover have "d1 = takeWhile is_space d1 @ dropWhile is_space d1" by simp
    ultimately have len: "length cs = length t1 + length (takeWhile is_space d1)
                 + length (dropWhile is_space d1)"
      by (metis add.assoc length_append)
    have ic: "ident_call (c # cs) = (case dropWhile is_space d1 of [] \<Rightarrow> None
         | x # r \<Rightarrow> if x = CHR ''('' then Some (c # t1, r) else None)"
      using True unfolding d1_def t1_def by simp
    have eq': "rx_match False free_call pos g (c # cs)
        = rx_match False call_tail (pos + 1 + length t1) (Some (c # t1)) d1"
      using eq unfolding d1_def t1_def .
    show ?thesis
    proof (cases "dropWhile is_space d1")
      case Nil
      show ?thesis unfolding \<open>s = c # cs\<close> eq' ic tail_match Nil by simp
    next
      case (Cons x r)
      have "length cs = length t1 + length (takeWhile is_space d1) + Suc (length r)"
        using len Cons by simp
      then show ?thesis unfolding \<open>s = c # cs\<close> eq' ic tail_match Cons by simp
    qed
  qed
qed

lemma ident_call_shorter: "ident_call s = Some (n, r) \<Longrightarrow> length r < length s"
proof (cases s)
  case Nil
  assume "ident_call s = Some (n, r)"
  with Nil show ?thesis by simp
next
  case (Cons c cs)
  assume a: "ident_call s = Some (n, r)"
  let ?d1 = "dropWhile (cclass_mem CIdentChar) cs"
  from a Cons obtain x where d: "dropWhile is_space ?d1 = x # r"
    by (auto split: if_splits list.splits)
  have "length (dropWhile is_space ?d1) \<le> length ?d1" by (rule length_dropWhile_le)
  moreover have "length ?d1 \<le> length cs" by (rule length_dropWhile_le)
  ultimately show ?thesis using d Cons by simp
qed

lemma ident_call_region:
  assumes "ident_call (c # cs) = Some (n, r)"
  shows "\<exists>u. cs = u @ r \<and> (\<forall>x\<in>set u. cclass_mem CIdentChar x \<or> is_space x \<or> x = CHR ''('')"
proof -
  define t1 where "t1 = takeWhile (cclass_mem CIdentChar) cs"
  define d1 where "d1 = dropWhile (cclass_mem CIdentChar) cs"
  from assms obtain x where d: "dropWhile is_space d1 = x # r" and x: "x = CHR ''(''"
    unfolding d1_def by (auto split: if_splits list.splits)
  have a: "cs = t1 @ d1" unfolding t1_def d1_def by simp
  have "d1 = takeWhile is_space d1 @ dropWhile is_space d1" by simp
  then have b: "d1 = takeWhile is_space d1 @ [x] @ r" using d by simp
  have cs: "cs = (t1 @ takeWhile is_space d1 @ [x]) @ r"
    using a b by (metis append.assoc)
  have t: "\<forall>y\<in>set t1. cclass_mem CIdentChar y"
    unfolding t1_def by (metis set_takeWhileD)
  have w: "\<forall>y\<in>set (takeWhile is_space d1). is_space y"
    by (metis set_takeWhileD)
  have "\<forall>y\<in>set (t1 @ takeWhile is_space d1 @ [x]). cclass_mem CIdentChar y \<or> is_space y \<or> y = CHR ''(''"
    using t w x by (simp only: set_append ball_Un) simp
  with cs show ?thesis by blast
qed

declare finditer_from.simps [simp del]

lemma finditer_no_match:
  assumes "rx_match ic r pos None (c # cs) = []"
  shows "finditer_from ic r pos (c # cs) = finditer_from ic r (pos + 1) cs"
  by (subst finditer_from.simps) (simp only: assms list.case)

lemma finditer_no_match_Nil:
  assumes "rx_match ic r pos None [] = []"
  shows "finditer_from ic r pos [] = []"
  by (subst finditer_from.simps) (simp only: assms list.case)

lemma finditer_one_match:
  assumes "rx_match ic r pos None s = [(e, Some n, rest)]" and "length rest < length s"
  shows "finditer_from ic r pos s = n # finditer_from ic r e rest"
  by (subst finditer_from.simps)
     (simp only: assms list.case prod.case if_True group1_def option.case)

lemma finditer_free_Nil: "finditer_from False free_call pos [] = []"
  by (rule finditer_no_match_Nil) (simp add: free_match del: rx_match.simps)

lemma finditer_free_None:
  assumes "ident_call (c # cs) = None"
  shows "finditer_from False free_call pos (c # cs) = finditer_from False free_call (pos + 1) cs"
proof (rule finditer_no_match)
  show "rx_match False free_call pos None (c # cs) = []" unfolding free_match assms by simp
qed

lemma finditer_free_Some:
  assumes "ident_call s = Some (n, r)"
  shows "\<exists>e. finditer_from False free_call pos s = n # finditer_from False free_call e r"
proof -
  have l: "length r < length s" using assms by (rule ident_call_shorter)
  have m: "rx_match False free_call pos None s = [(pos + (length s - length r), Some n, r)]"
    unfolding free_match assms by simp
  from finditer_one_match[OF m l] show ?thesis by blast
qed

lemma skip_free:
  assumes "\<forall>c\<in>set u. \<not> cclass_mem CIdentStart c"
  shows "\<exists>p. finditer_from False free_call pos (u @ r) = finditer_from False free_call p r"
  using assms
proof (induction u arbitrary: pos)
  case Nil
  show ?case by auto
next
  case (Cons c u)
  have "ident_call (c # (u @ r)) = None" using Cons.prems by simp
  then have "finditer_from False free_call pos (c # (u @ r)) = finditer_from False free_call (pos + 1) (u @ r)"
    by (rule finditer_free_None)
  then have "finditer_from False free_call pos ((c # u) @ r) = finditer_from False free_call (pos + 1) (u @ r)"
    by simp
  moreover obtain p where "finditer_from False free_call (pos + 1) (u @ r) = finditer_from False free_call p r"
    using Cons.IH[of "pos + 1"] Cons.prems by auto
  ultimately show ?case by auto
qed

lemma startswith_hd:
  "sg \<noteq> [] \<Longrightarrow> c \<noteq> hd sg \<Longrightarrow> \<not> startswith (c # cs) sg"
  by (cases sg) auto

lemma startswith_append: "startswith s sg \<Longrightarrow> s = sg @ drop (length sg) s"
  by (induction s sg rule: startswith.induct) auto

lemma finditer_sigil_skip:
  assumes "sigil_pattern q sg" and "rx_match False q pos None (c # cs) = []"
  shows "finditer_from False q pos (c # cs) = finditer_from False q (pos + 1) cs"
  using assms(2) by (rule finditer_no_match)

lemma finditer_sigil_Nil:
  assumes "sigil_pattern q sg"
  shows "finditer_from False q pos [] = []"
proof -
  have "\<not> startswith [] sg" using assms by (cases sg) (auto simp: sigil_pattern_def)
  then have "rx_match False q pos None [] = []" using assms by (simp add: sigil_pattern_def del: rx_match.simps)
  then show ?thesis by (rule finditer_no_match_Nil)
qed

lemma skip_sigil:
  assumes "sigil_pattern q sg" and "\<forall>c\<in>set u. c \<noteq> hd sg"
  shows "\<exists>p. finditer_from False q pos (u @ r) = finditer_from False q p r"
  using assms(2)
proof (induction u arbitrary: pos)
  case Nil
  show ?case by auto
next
  case (Cons c u)
  have "sg \<noteq> []" using assms(1) by (simp add: sigil_pattern_def)
  then have "\<not> startswith (c # (u @ r)) sg" using Cons.prems startswith_hd by simp
  then have "rx_match False q pos None (c # (u @ r)) = []"
    using assms(1) by (simp add: sigil_pattern_def del: rx_match.simps)
  then have "finditer_from False q pos ((c # u) @ r) = finditer_from False q (pos + 1) (u @ r)"
    using finditer_sigil_skip[OF assms(1)] by simp
  moreover obtain p where "finditer_from False q (pos + 1) (u @ r) = finditer_from False q p r"
    using Cons.IH[of "pos + 1"] Cons.prems by auto
  ultimately show ?case by auto
qed

lemma sigil_names_free:
  assumes sp: "sigil_pattern q sg"
  shows "n \<in> set (finditer_from False q pos s) \<Longrightarrow> n \<in> set (finditer_from False free_call pos' s)"
proof (induction "length s" arbitrary: s pos pos' rule: less_induct)
  case less
  have sg: "sg \<noteq> []" and sgc: "\<forall>c\<in>set sg. \<not> cclass_mem CIdentChar c \<and> \<not> is_space c \<and> c \<noteq> CHR ''(''"
    and qm: "\<And>pos g s. rx_match False q pos g s
           = (if startswith s sg then rx_match False free_call (pos + length sg) g (drop (length sg) s)
              else [])"
    using sp by (auto simp: sigil_pattern_def)
  have hd_sg: "hd sg \<in> set sg" using sg by simp
  show ?case
  proof (cases s)
    case Nil
    with less.prems finditer_sigil_Nil[OF sp] show ?thesis by simp
  next
    case (Cons c cs)
    show ?thesis
    proof (cases "ident_call s")
      case (Some nr)
      obtain n1 r1 where nr: "nr = (n1, r1)" by (cases nr)
      have ic: "ident_call (c # cs) = Some (n1, r1)" using Some nr Cons by simp
      then have cst: "cclass_mem CIdentStart c" by (auto split: if_splits)
      then have "c \<noteq> hd sg" using sgc hd_sg ident_start_char by blast
      then have "\<not> startswith (c # cs) sg" using sg startswith_hd by simp
      then have "rx_match False q pos None (c # cs) = []" unfolding qm by simp
      then have q1: "finditer_from False q pos s = finditer_from False q (pos + 1) cs"
        using finditer_sigil_skip[OF sp] Cons by simp
      from ident_call_region[OF ic] obtain u where u: "cs = u @ r1"
        and ur: "\<forall>x\<in>set u. cclass_mem CIdentChar x \<or> is_space x \<or> x = CHR ''(''" by blast
      have "\<forall>x\<in>set u. x \<noteq> hd sg" using ur sgc hd_sg by blast
      from skip_sigil[OF sp this, of "pos + 1" r1] obtain p where
        q2: "finditer_from False q (pos + 1) cs = finditer_from False q p r1" using u by auto
      from finditer_free_Some[of s n1 r1 pos'] obtain e where
        f: "finditer_from False free_call pos' s = n1 # finditer_from False free_call e r1"
        using Some nr by auto
      have "length r1 < length s" using Some nr ident_call_shorter by simp
      from less.hyps[OF this, of p e] less.prems q1 q2 f show ?thesis by simp
    next
      case None
      have f1: "finditer_from False free_call pos' s = finditer_from False free_call (pos' + 1) cs"
        using None Cons finditer_free_None by simp
      show ?thesis
      proof (cases "startswith s sg \<and> ident_call (drop (length sg) s) \<noteq> None")
        case True
        then obtain n2 r2 where i2: "ident_call (drop (length sg) s) = Some (n2, r2)" by auto
        have st: "s = sg @ drop (length sg) s" using True startswith_append by simp
        have l2: "length r2 < length (drop (length sg) s)" using i2 by (rule ident_call_shorter)
        then have l2s: "length r2 < length s" by simp
        have "rx_match False q pos None s
            = [(pos + length sg + (length (drop (length sg) s) - length r2), Some n2, r2)]"
          using True unfolding qm free_match i2 by simp
        then have q1: "finditer_from False q pos s
            = n2 # finditer_from False q (pos + length sg + (length (drop (length sg) s) - length r2)) r2"
          using l2s by (rule finditer_one_match)
        have "\<forall>c\<in>set sg. \<not> cclass_mem CIdentStart c" using sgc ident_start_char by blast
        from skip_free[OF this, of pos' "drop (length sg) s"] obtain p where
          f2: "finditer_from False free_call pos' s = finditer_from False free_call p (drop (length sg) s)"
          using st by metis
        from finditer_free_Some[OF i2, of p] obtain e where
          f3: "finditer_from False free_call p (drop (length sg) s) = n2 # finditer_from False free_call e r2"
          by blast
        show ?thesis
        proof (cases "n = n2")
          case True
          then show ?thesis using f2 f3 by simp
        next
          case False
          then have "n \<in> set (finditer_from False q (pos + length sg + (length (drop (length sg) s) - length r2)) r2)"
            using less.prems q1 by simp
          from less.hyps[OF l2s this, of e] show ?thesis using f2 f3 by simp
        qed
      next
        case False
        then have "rx_match False q pos None s = []"
          unfolding qm free_match by (auto split: option.splits)
        then have q1: "finditer_from False q pos s = finditer_from False q (pos + 1) cs"
          using finditer_sigil_skip[OF sp] Cons by simp
        have "length cs < length s" using Cons by simp
        from less.hyps[OF this, of "pos + 1" "pos' + 1"] less.prems q1 f1 show ?thesis by simp
      qed
    qed
  qed
qed

section \<open>A definition line is matched as a call\<close>

lemma star_states_chars:
  "(p', g', s') \<in> set (star_states k p g s) \<Longrightarrow> \<forall>x\<in>set (take (p' - p) s). cclass_mem k x"
proof (induction k p g s rule: star_states.induct)
  case (1 k pos g)
  then show ?case by simp
next
  case (2 k pos g c cs)
  show ?case
  proof (cases "cclass_mem k c \<and> (p', g', s') \<in> set (star_states k (pos + 1) g cs)")
    case True
    then have ih: "\<forall>x\<in>set (take (p' - (pos + 1)) cs). cclass_mem k x" using 2 by simp
    have "pos + 1 \<le> p'" using True star_states_sound by blast
    then have "p' - pos = Suc (p' - (pos + 1))" by arith
    then have "take (p' - pos) (c # cs) = c # take (p' - (pos + 1)) cs"
      by simp
    then show ?thesis using ih True by simp
  next
    case False
    with 2(2) have "(p', g', s') = (pos, g, c # cs)" by (auto split: if_splits)
    then show ?thesis by simp
  qed
qed

lemma rx_match_chars:
  "(p', g', s') \<in> set (rx_match ic r p g s) \<Longrightarrow> \<forall>x\<in>set (take (p' - p) s). rx_chars ic r x"
proof (induction r arbitrary: p g s p' g' s')
  case Eps then show ?case by simp
next
  case (Lit c) then show ?case by (auto split: list.splits if_splits)
next
  case (Cls k) then show ?case by (auto split: list.splits if_splits)
next
  case (Seq a b)
  from Seq.prems obtain p1 g1 s1 where m1: "(p1, g1, s1) \<in> set (rx_match ic a p g s)"
    and m2: "(p', g', s') \<in> set (rx_match ic b p1 g1 s1)" by auto
  from rx_match_sound[OF m1] have a: "p \<le> p1" "s1 = drop (p1 - p) s" by auto
  from rx_match_sound[OF m2] have b: "p1 \<le> p'" by auto
  have "p' - p = (p1 - p) + (p' - p1)" using a b by simp
  then have "take (p' - p) s = take (p1 - p) s @ take (p' - p1) s1"
    using a(2) by (simp add: take_add)
  then show ?case using Seq.IH(1)[OF m1] Seq.IH(2)[OF m2] by auto
next
  case (Alt a b) then show ?case by auto
next
  case (Star k) then show ?case using star_states_chars by auto
next
  case (Grp a) then show ?case by auto
next
  case Bol then show ?case by (auto split: if_splits)
qed

lemma rx_chars_seqs: "rx_chars ic (seqs rs) x \<longleftrightarrow> (\<exists>r\<in>set rs. rx_chars ic r x)"
  by (induction rs) (simp_all add: seqs_def)

lemma rx_chars_lits:
  "rx_chars ic (lits w) x \<longleftrightarrow> (\<exists>c\<in>set w. if ic then lower x = lower c else x = c)"
  by (simp add: lits_def rx_chars_seqs)

lemma lower_paren: "lower x = lower CHR ''('' \<longleftrightarrow> x = CHR ''(''"
proof -
  have l: "lower CHR ''('' = CHR ''(''" by (simp add: lower_def)
  show ?thesis
  proof (cases "65 \<le> (of_char x :: nat) \<and> (of_char x :: nat) \<le> 90")
    case True
    then have "lower x = char_of ((of_char x :: nat) + 32)" by (simp add: lower_def Let_def)
    moreover have "(of_char (char_of ((of_char x :: nat) + 32)) :: nat) = of_char x + 32"
      using True by (simp add: of_char_of)
    ultimately have "(of_char (lower x) :: nat) \<noteq> of_char CHR ''(''" using True by simp
    then have "lower x \<noteq> CHR ''(''" by auto
    moreover have "x \<noteq> CHR ''(''" using True by auto
    ultimately show ?thesis using l by simp
  next
    case False
    then have "lower x = x" by (auto simp: lower_def Let_def)
    then show ?thesis using l by simp
  qed
qed

lemma search_bol_later: "0 < p \<Longrightarrow> search_from ic (Seq Bol r) p s = None"
  by (induction s arbitrary: p) simp_all

lemma search_bol_first:
  assumes "search_from ic (Seq Bol r) 0 s = Some name"
  shows "\<exists>e g rest. (e, g, rest) \<in> set (rx_match ic (Seq Bol r) 0 None s) \<and> name = group1 g"
proof -
  have m: "rx_match ic (Seq Bol r) 0 None s = rx_match ic r 0 None s" by simp
  show ?thesis
  proof (cases "rx_match ic r 0 None s")
    case Nil
    then have "search_from ic (Seq Bol r) 0 s = None"
      using m by (cases s) (simp_all add: search_bol_later del: rx_match.simps)
    with assms show ?thesis by simp
  next
    case (Cons st sts)
    obtain e g rest where st: "st = (e, g, rest)" by (cases st)
    have "search_from ic (Seq Bol r) 0 s = Some (group1 g)"
      using m Cons st by (cases s) (simp_all del: rx_match.simps)
    with assms have "name = group1 g" by simp
    moreover have "(e, g, rest) \<in> set (rx_match ic (Seq Bol r) 0 None s)"
      using Cons st by simp
    ultimately show ?thesis by blast
  qed
qed

lemma rx_match_consumed:
  assumes "(p', g', s') \<in> set (rx_match ic r p g s)"
  shows "\<exists>v. s = v @ s' \<and> length v = p' - p \<and> p \<le> p' \<and> (\<forall>x\<in>set v. rx_chars ic r x)"
proof -
  from rx_match_sound[OF assms] have a: "p \<le> p'" "s' = drop (p' - p) s" "p' - p \<le> length s"
    by auto
  have "s = take (p' - p) s @ s'" using a by simp
  moreover have "length (take (p' - p) s) = p' - p" using a by simp
  ultimately show ?thesis using rx_match_chars[OF assms] a(1) by blast
qed

lemma lits_no_paren:
  assumes "rx_chars True (lits w) x" and "CHR ''('' \<notin> set w"
  shows "x \<noteq> CHR ''(''"
proof
  assume x: "x = CHR ''(''"
  from assms(1) obtain c where c: "c \<in> set w" "lower x = lower c"
    by (auto simp: rx_chars_lits)
  then have "lower c = lower CHR ''(''" using x by simp
  then have "c = CHR ''(''" by (simp only: lower_paren)
  with c(1) assms(2) show False by simp
qed

lemma plus_advances:
  assumes "(p', g', s') \<in> set (rx_match ic (plus k) p g s)"
  shows "p < p'"
proof -
  from assms obtain p1 g1 s1 where a: "(p1, g1, s1) \<in> set (rx_match ic (Cls k) p g s)"
    and b: "(p', g', s') \<in> set (rx_match ic (Star k) p1 g1 s1)"
    unfolding plus_def rx_match_Seq_iff by blast
  from a have "p1 = p + 1" by (auto split: list.splits if_splits)
  moreover from rx_match_sound[OF b] have "p1 \<le> p'" by simp
  ultimately show ?thesis by simp
qed

lemma free_call_ignorecase:
  "rx_match True free_call pos g s = rx_match False free_call pos g s"
proof -
  have l: "\<And>p g s. rx_match True (Lit CHR ''('') p g s = rx_match False (Lit CHR ''('') p g s"
    by (simp add: lower_paren split: list.splits)
  have t: "\<And>p g s. rx_match True call_tail p g s = rx_match False call_tail p g s"
    unfolding call_tail_def by (simp only: rx_match.simps(1,4,6) l case_prod_unfold)
  have i: "\<And>p g s. rx_match True ident p g s = rx_match False ident p g s"
    by (simp add: ident_def case_prod_unfold)
  show ?thesis unfolding free_call_def by (simp only: rx_match.simps(4) t i case_prod_unfold)
qed

lemma ident_call_SomeD:
  assumes "ident_call s = Some (n, r)"
  shows "\<exists>h t. s = h # t \<and> cclass_mem CIdentStart h"
  using assms by (cases s) (auto split: if_splits)

lemma no_call_before:
  assumes np: "\<forall>x\<in>set v. x \<noteq> CHR ''(''" and ne: "v \<noteq> []" and sp: "is_space (last v)"
    and h: "cclass_mem CIdentStart h"
  shows "ident_call (v @ h # t) = None"
proof -
  obtain c v' where v: "v = c # v'" using ne by (cases v) auto
  show ?thesis
  proof (cases "cclass_mem CIdentStart c")
    case False
    then show ?thesis using v by simp
  next
    case True
    then have cs: "\<not> is_space c" using ident_start_char ident_char_not_space by blast
    have v'ne: "v' \<noteq> []" using sp v cs by auto
    then have lv: "last v' = last v" using v by simp
    have "\<not> cclass_mem CIdentChar (last v')" using sp lv ident_char_not_space by auto
    moreover have "last v' \<in> set v'" using v'ne by simp
    ultimately have d1: "dropWhile (cclass_mem CIdentChar) (v' @ h # t)
        = dropWhile (cclass_mem CIdentChar) v' @ h # t"
      by (rule_tac dropWhile_append1)
    define w where "w = dropWhile (cclass_mem CIdentChar) v'"
    have wsub: "set w \<subseteq> set v'" unfolding w_def by (auto dest: set_dropWhileD)
    have hs: "\<not> is_space h" using h ident_start_char ident_char_not_space by blast
    have hp: "h \<noteq> CHR ''(''" using h ident_start_char ident_char_not_paren by blast
    have "\<exists>x r. dropWhile is_space (w @ h # t) = x # r \<and> x \<noteq> CHR ''(''"
    proof (cases "\<forall>x\<in>set w. is_space x")
      case True
      then have "dropWhile is_space (w @ h # t) = dropWhile is_space (h # t)"
        by (simp add: dropWhile_append2)
      then show ?thesis using hs hp by simp
    next
      case False
      then obtain x where x: "x \<in> set w" "\<not> is_space x" by blast
      then have e: "dropWhile is_space (w @ h # t) = dropWhile is_space w @ h # t"
        by (rule dropWhile_append1)
      have n: "dropWhile is_space w \<noteq> []" using x by (auto simp: dropWhile_eq_Nil_conv)
      then obtain y r where yr: "dropWhile is_space w = y # r" by (cases "dropWhile is_space w") auto
      then have "y \<in> set w" by (metis list.set_intros(1) set_dropWhileD)
      then have "y \<noteq> CHR ''(''" using wsub np v by auto
      then show ?thesis using e yr by simp
    qed
    then obtain x r where xr: "dropWhile is_space (w @ h # t) = x # r" "x \<noteq> CHR ''(''" by blast
    have "ident_call (c # (v' @ h # t)) = None"
      using True d1 xr unfolding w_def by simp
    then show ?thesis using v by simp
  qed
qed

lemma skip_before_call:
  assumes "\<forall>x\<in>set u. x \<noteq> CHR ''(''" and "u = [] \<or> is_space (last u)"
    and "cclass_mem CIdentStart h"
  shows "\<exists>p. finditer_from False free_call pos (u @ h # t) = finditer_from False free_call p (h # t)"
  using assms(1,2)
proof (induction u arbitrary: pos)
  case Nil
  show ?case by auto
next
  case (Cons c u)
  have "ident_call ((c # u) @ h # t) = None"
    using Cons.prems assms(3) by (intro no_call_before) auto
  then have "ident_call (c # (u @ h # t)) = None" by simp
  then have "finditer_from False free_call pos (c # (u @ h # t))
      = finditer_from False free_call (pos + 1) (u @ h # t)"
    by (rule finditer_free_None)
  moreover have "u = [] \<or> is_space (last u)" using Cons.prems(2) by (cases u) auto
  then obtain p where "finditer_from False free_call (pos + 1) (u @ h # t)
      = finditer_from False free_call p (h # t)"
    using Cons.IH[of "pos + 1"] Cons.prems(1) by auto
  ultimately show ?case by auto
qed

lemma space_chars_no_paren: "rx_chars ic (Star CSpace) x \<Longrightarrow> x \<noteq> CHR ''(''"
  using space_not_paren by auto

lemma visibility_no_paren:
  assumes "rx_chars True (opt (Alt (lits ''public'') (Alt (lits ''private'') (lits ''protected'')))) x"
  shows "x \<noteq> CHR ''(''"
proof -
  from assms have "rx_chars True (lits ''public'') x \<or> rx_chars True (lits ''private'') x
      \<or> rx_chars True (lits ''protected'') x"
    by (simp add: opt_def)
  moreover have "CHR ''('' \<notin> set ''public''" "CHR ''('' \<notin> set ''private''"
    "CHR ''('' \<notin> set ''protected''" by simp_all
  ultimately show ?thesis using lits_no_paren by blast
qed

lemma function_no_paren: "rx_chars True (lits ''function'') x \<Longrightarrow> x \<noteq> CHR ''(''"
  by (erule lits_no_paren) simp

lemma plus_space_chars: "rx_chars ic (plus CSpace) x \<Longrightarrow> is_space x"
  by (auto simp: plus_def)

lemma rx_match_SeqE:
  assumes "x \<in> set (rx_match ic (Seq a b) p g s)"
  obtains p1 g1 s1 where "(p1, g1, s1) \<in> set (rx_match ic a p g s)"
    and "x \<in> set (rx_match ic b p1 g1 s1)"
  using assms unfolding rx_match_Seq_iff by blast

lemma seq_consumed:
  assumes "(e, g, rest) \<in> set (rx_match ic (Seq a b) p g0 s)"
    and "\<And>x. rx_chars ic a x \<Longrightarrow> Q x"
  obtains v p1 g1 s1 where "s = v @ s1" and "\<forall>x\<in>set v. Q x" and "length v = p1 - p"
    and "(p1, g1, s1) \<in> set (rx_match ic a p g0 s)"
    and "(e, g, rest) \<in> set (rx_match ic b p1 g1 s1)"
proof -
  from assms(1) obtain p1 g1 s1 where m: "(p1, g1, s1) \<in> set (rx_match ic a p g0 s)"
    and r: "(e, g, rest) \<in> set (rx_match ic b p1 g1 s1)"
    unfolding rx_match_Seq_iff by blast
  from rx_match_consumed[OF m] obtain v where
    v: "s = v @ s1" "length v = p1 - p" "\<forall>x\<in>set v. rx_chars ic a x" by blast
  from v(3) assms(2) have q: "\<forall>x\<in>set v. Q x" by blast
  show ?thesis by (rule that[OF v(1) q v(2) m r])
qed

lemma definition_prefix:
  assumes m: "(e, g, rest) \<in> set (rx_match ic
                 (Seq a1 (Seq a2 (Seq a3 (Seq a4 (Seq (plus k) t))))) p g0 s)"
    and q1: "\<And>x. rx_chars ic a1 x \<Longrightarrow> Q x"
    and q2: "\<And>x. rx_chars ic a2 x \<Longrightarrow> Q x"
    and q3: "\<And>x. rx_chars ic a3 x \<Longrightarrow> Q x"
    and q4: "\<And>x. rx_chars ic a4 x \<Longrightarrow> Q x"
    and q5: "\<And>x. cclass_mem k x \<Longrightarrow> Q x \<and> R x"
  shows "\<exists>u p5 g5 s5. s = u @ s5 \<and> (\<forall>x\<in>set u. Q x) \<and> u \<noteq> [] \<and> R (last u)
           \<and> (e, g, rest) \<in> set (rx_match ic t p5 g5 s5)"
proof -
  obtain v1 p1 g1 s1 where
    v1: "s = v1 @ s1" "\<forall>x\<in>set v1. Q x"
    and r1: "(e, g, rest) \<in> set (rx_match ic (Seq a2 (Seq a3 (Seq a4 (Seq (plus k) t)))) p1 g1 s1)"
    by (rule seq_consumed[OF m q1])
  obtain v2 p2 g2 s2 where
    v2: "s1 = v2 @ s2" "\<forall>x\<in>set v2. Q x"
    and r2: "(e, g, rest) \<in> set (rx_match ic (Seq a3 (Seq a4 (Seq (plus k) t))) p2 g2 s2)"
    by (rule seq_consumed[OF r1 q2])
  obtain v3 p3 g3 s3 where
    v3: "s2 = v3 @ s3" "\<forall>x\<in>set v3. Q x"
    and r3: "(e, g, rest) \<in> set (rx_match ic (Seq a4 (Seq (plus k) t)) p3 g3 s3)"
    by (rule seq_consumed[OF r2 q3])
  obtain v4 p4 g4 s4 where
    v4: "s3 = v4 @ s4" "\<forall>x\<in>set v4. Q x"
    and r4: "(e, g, rest) \<in> set (rx_match ic (Seq (plus k) t) p4 g4 s4)"
    by (rule seq_consumed[OF r3 q4])
  have q5': "\<And>x. rx_chars ic (plus k) x \<Longrightarrow> Q x \<and> R x"
    using q5 by (simp add: plus_def)
  obtain v5 p5 g5 s5 where
    v5: "s4 = v5 @ s5" "\<forall>x\<in>set v5. Q x \<and> R x" "length v5 = p5 - p4"
    and m5: "(p5, g5, s5) \<in> set (rx_match ic (plus k) p4 g4 s4)"
    and r5: "(e, g, rest) \<in> set (rx_match ic t p5 g5 s5)"
    by (rule seq_consumed[OF r4 q5'])
  have "0 < length v5" using plus_advances[OF m5] v5(3) by simp
  then have ne: "v5 \<noteq> []" by auto
  then have "last v5 \<in> set v5" by simp
  then have sp: "R (last v5)" using v5(2) by blast
  define u where "u = v1 @ v2 @ v3 @ v4 @ v5"
  have "s = u @ s5" unfolding u_def using v1(1) v2(1) v3(1) v4(1) v5(1) by simp
  moreover have "\<forall>x\<in>set u. Q x"
    unfolding u_def using v1(2) v2(2) v3(2) v4(2) v5(2) by auto
  moreover have "u \<noteq> []" unfolding u_def using ne by simp
  moreover have "R (last u)" unfolding u_def using ne sp by simp
  ultimately show ?thesis using r5 by blast
qed

lemma func_pattern_split:
  assumes "(e, g, rest) \<in> set (rx_match True func_pattern 0 None l)"
  shows "\<exists>u p5 g5 s5. l = u @ s5 \<and> (\<forall>x\<in>set u. x \<noteq> CHR ''('') \<and> u \<noteq> [] \<and> is_space (last u)
           \<and> (e, g, rest) \<in> set (rx_match True free_call p5 g5 s5)"
proof -
  define vis where "vis = opt (Alt (lits ''public'') (Alt (lits ''private'') (lits ''protected'')))"
  define fn where "fn = lits ''function''"
  have fp: "func_pattern = Seq Bol (Seq (Star CSpace) (Seq vis
      (Seq (Star CSpace) (Seq fn (Seq (plus CSpace) free_call)))))"
    by (simp add: func_pattern_def seqs_Cons seqs_Nil free_call_def call_tail_def vis_def fn_def)
  define body where "body = Seq (Star CSpace) (Seq vis
      (Seq (Star CSpace) (Seq fn (Seq (plus CSpace) free_call))))"
  from assms have "(e, g, rest) \<in> set (rx_match True (Seq Bol body) 0 None l)"
    unfolding fp body_def .
  then obtain p0 g0 s0 where
    m0: "(p0, g0, s0) \<in> set (rx_match True Bol 0 None l)" and
    r0': "(e, g, rest) \<in> set (rx_match True body p0 g0 s0)"
    unfolding rx_match_Seq_iff by blast
  from r0' have r0: "(e, g, rest) \<in> set (rx_match True (Seq (Star CSpace) (Seq vis
      (Seq (Star CSpace) (Seq fn (Seq (plus CSpace) free_call))))) p0 g0 s0)"
    unfolding body_def .
  from m0 have s0: "s0 = l" by simp
  have q2: "\<And>x. rx_chars True vis x \<Longrightarrow> x \<noteq> CHR ''(''"
    unfolding vis_def by (rule visibility_no_paren)
  have q4: "\<And>x. rx_chars True fn x \<Longrightarrow> x \<noteq> CHR ''(''"
    unfolding fn_def by (rule function_no_paren)
  have q5: "\<And>x. cclass_mem CSpace x \<Longrightarrow> x \<noteq> CHR ''('' \<and> is_space x"
    using space_not_paren by simp
  show ?thesis
  proof (rule definition_prefix[where Q = "\<lambda>x. x \<noteq> CHR ''(''" and R = is_space
        and ic = True and p = p0 and ?g0.0 = g0 and s = l and k = CSpace,
        OF _ space_chars_no_paren q2 space_chars_no_paren q4 q5])
    show "(e, g, rest) \<in> set (rx_match True (Seq (Star CSpace) (Seq vis
      (Seq (Star CSpace) (Seq fn (Seq (plus CSpace) free_call))))) p0 g0 l)"
      using r0 unfolding s0 .
  qed
qed

lemma func_pattern_bol: "\<exists>r. func_pattern = Seq Bol r"
  by (simp add: func_pattern_def seqs_Cons)

lemma free_match_SomeD:
  assumes "(e, g, rest) \<in> set (rx_match False free_call p g0 s)"
  shows "\<exists>n r. ident_call s = Some (n, r) \<and> g = Some n"
proof (cases "ident_call s")
  case None
  with assms show ?thesis unfolding free_match by simp
next
  case (Some a)
  obtain n r where a: "a = (n, r)" by (cases a)
  from assms have "g = Some n" unfolding free_match Some a by simp
  with Some a show ?thesis by simp
qed

lemma definition_line_is_call:
  assumes "re_search_group True func_pattern l = Some name"
  shows "name \<in> set (re_findall False free_call l)"
proof -
  obtain r0 where fp: "func_pattern = Seq Bol r0" using func_pattern_bol by (rule exE)
  have s: "search_from True (Seq Bol r0) 0 l = Some name"
    using assms unfolding re_search_group_def fp .
  from search_bol_first[OF s] obtain e g rest where
    m': "(e, g, rest) \<in> set (rx_match True (Seq Bol r0) 0 None l)" and n: "name = group1 g"
    by (elim exE conjE)
  from m' have m: "(e, g, rest) \<in> set (rx_match True func_pattern 0 None l)"
    unfolding fp .
  from func_pattern_split[OF m] obtain u p5 g5 s5 where
    l: "l = u @ s5" and np: "\<forall>x\<in>set u. x \<noteq> CHR ''(''" and ne: "u \<noteq> []"
    and sp: "is_space (last u)"
    and t: "(e, g, rest) \<in> set (rx_match True free_call p5 g5 s5)"
    by (elim exE conjE)
  from t have t': "(e, g, rest) \<in> set (rx_match False free_call p5 g5 s5)"
    by (simp only: free_call_ignorecase)
  from free_match_SomeD[OF t'] obtain n' r where
    ic: "ident_call s5 = Some (n', r)" and g: "g = Some n'"
    by (elim exE conjE)
  from ident_call_SomeD[OF ic] obtain h t5 where s5: "s5 = h # t5" and h: "cclass_mem CIdentStart h"
    by (elim exE conjE)
  have sp': "u = [] \<or> is_space (last u)" using sp by simp
  from skip_before_call[OF np sp' h] obtain p where
    p: "finditer_from False free_call 0 (u @ h # t5) = finditer_from False free_call p (h # t5)"
    by (rule exE)
  from finditer_free_Some[OF ic] obtain e' where
    e': "finditer_from False free_call p s5 = n' # finditer_from False free_call e' r"
    by (rule exE)
  have "finditer_from False free_call 0 l = n' # finditer_from False free_call e' r"
    unfolding l s5 p using e' unfolding s5 .
  then have "n' \<in> set (finditer_from False free_call 0 l)" by simp
  moreover have "name = n'" using n g by (simp add: group1_def)
  ultimately show ?thesis by (simp add: re_findall_def)
qed


section \<open>The function locator\<close>

lemma enumerate_from_append:
  "enumerate_from n (xs @ ys) = enumerate_from n xs @ enumerate_from (n + int (length xs)) ys"
  by (induction xs arbitrary: n) (simp_all add: algebra_simps)

lemma in_enumerate_fromD:
  "(i, l) \<in> set (enumerate_from n xs) \<Longrightarrow> \<exists>k<length xs. i = n + int k \<and> l = xs ! k"
proof (induction xs arbitrary: n)
  case Nil
  then show ?case by simp
next
  case (Cons x xs)
  from Cons.prems have "(i, l) = (n, x) \<or> (i, l) \<in> set (enumerate_from (n + 1) xs)" by simp
  then show ?case
  proof
    assume "(i, l) = (n, x)"
    then show ?thesis by auto
  next
    assume "(i, l) \<in> set (enumerate_from (n + 1) xs)"
    from Cons.IH[OF this] obtain k where "k < length xs" "i = n + 1 + int k" "l = xs ! k" by blast
    then have "Suc k < length (x # xs) \<and> i = n + int (Suc k) \<and> l = (x # xs) ! Suc k" by simp
    then show ?thesis by blast
  qed
qed

lemma span_brackets_Some:
  "span_brackets (Some f) (Some s) line hi \<longleftrightarrow> f \<noteq> [] \<and> s \<noteq> 0 \<and> s \<le> line \<and> line \<le> hi"
  by (simp add: span_brackets_def)

lemma span_brackets_upper: "span_brackets c s line hi \<Longrightarrow> line \<le> hi"
  by (auto simp: span_brackets_def split: option.splits)

lemma span_brackets_bounds:
  "span_brackets c s line hi \<Longrightarrow> \<exists>f v. c = Some f \<and> s = Some v \<and> f \<noteq> [] \<and> v \<le> line \<and> line \<le> hi"
  by (auto simp: span_brackets_def split: option.splits)

lemma loop_skip:
  assumes "\<forall>x\<in>set xs. re_search_group True func_pattern (snd x) = None"
  shows "find_function_loop line c s (xs @ ys) = find_function_loop line c s ys"
  using assms by (induction xs) auto

lemma loop_before:
  assumes "\<forall>x\<in>set xs. fst x < line"
  shows "\<exists>c' s'. find_function_loop line c s (xs @ ys) = find_function_loop line c' s' ys"
  using assms
proof (induction xs arbitrary: c s)
  case Nil
  show ?case by auto
next
  case (Cons x xs)
  obtain i l where x: "x = (i, l)" by (cases x)
  have il: "i < line" using Cons.prems x by simp
  have "\<forall>x\<in>set xs. fst x < line" using Cons.prems by simp
  note ih = Cons.IH[OF this]
  show ?case
  proof (cases "re_search_group True func_pattern l")
    case None
    then show ?thesis using x ih[of c s] by simp
  next
    case (Some name)
    have "\<not> span_brackets c s line (i + 1 - 1)" using il span_brackets_upper by fastforce
    then show ?thesis using x Some ih[of "Some name" "Some (i + 1)"] by simp
  qed
qed

lemma loop_returns_span:
  "find_function_loop line c s xs = Inl (c', s', e) \<Longrightarrow> span_brackets c' s' line e"
proof (induction xs arbitrary: c s)
  case Nil
  then show ?case by simp
next
  case (Cons x xs)
  obtain i l where x: "x = (i, l)" by (cases x)
  show ?case
  proof (cases "re_search_group True func_pattern l")
    case None
    then show ?thesis using Cons x by simp
  next
    case (Some name)
    show ?thesis
    proof (cases "span_brackets c s line (i + 1 - 1)")
      case True
      then show ?thesis using Cons.prems x Some by auto
    next
      case False
      then show ?thesis using Cons x Some by simp
    qed
  qed
qed

lemma loop_all_later:
  assumes "\<forall>x\<in>set xs. re_search_group True func_pattern (snd x) \<noteq> None \<longrightarrow> line < fst x + 1"
    and "s = None \<or> (\<exists>v. s = Some v \<and> line < v)"
  shows "\<exists>c' s'. find_function_loop line c s xs = Inr (c', s') \<and> (s' = None \<or> (\<exists>v. s' = Some v \<and> line < v))"
  using assms
proof (induction xs arbitrary: c s)
  case Nil
  then show ?case by simp
next
  case (Cons x xs)
  obtain i l where x: "x = (i, l)" by (cases x)
  have later: "\<forall>x\<in>set xs. re_search_group True func_pattern (snd x) \<noteq> None \<longrightarrow> line < fst x + 1"
    using Cons.prems(1) by simp
  show ?case
  proof (cases "re_search_group True func_pattern l")
    case None
    then show ?thesis using x Cons.IH[OF later Cons.prems(2)] by simp
  next
    case (Some name)
    have "line < i + 1" using Cons.prems(1) x Some by simp
    have nb: "\<not> span_brackets c s line (i + 1 - 1)"
      using Cons.prems(2) by (auto simp: span_brackets_def split: option.splits)
    have "Some (i + 1) = None \<or> (\<exists>v. Some (i + 1) = Some v \<and> line < v)"
      using \<open>line < i + 1\<close> by simp
    from Cons.IH[OF later this] show ?thesis using x Some nb by simp
  qed
qed

lemma find_function_in_lines_inside:
  assumes i: "i < length ls"
    and d: "re_search_group True func_pattern (ls ! i) = Some name"
    and ij: "i < j" and j: "j \<le> length ls"
    and mid: "\<And>k. i < k \<Longrightarrow> k < j \<Longrightarrow> re_search_group True func_pattern (ls ! k) = None"
    and nxt: "j < length ls \<Longrightarrow> re_search_group True func_pattern (ls ! j) \<noteq> None"
    and lo: "int i + 1 \<le> line" and hi: "line \<le> int j"
  shows "find_function_in_lines ls line = (Some name, Some (int i + 1), int j)"
proof -
  define pre where "pre = take i ls"
  define md where "md = take (j - Suc i) (drop (Suc i) ls)"
  define post where "post = drop j ls"
  have ls: "ls = pre @ (ls ! i) # md @ post"
  proof -
    have "drop (Suc i) ls = md @ drop (j - Suc i) (drop (Suc i) ls)"
      by (simp only: md_def append_take_drop_id)
    also have "drop (j - Suc i) (drop (Suc i) ls) = post"
      unfolding post_def using ij by simp
    finally have b: "drop (Suc i) ls = md @ post" .
    have a: "ls = take i ls @ ls ! i # drop (Suc i) ls" by (rule id_take_nth_drop[OF i])
    show ?thesis unfolding pre_def by (rule a[unfolded b])
  qed
  have lpre: "length pre = i" unfolding pre_def using i by simp
  have lmd: "length md = j - Suc i" unfolding md_def using j ij by simp
  let ?E1 = "enumerate_from 0 pre"
  let ?E2 = "enumerate_from (int i + 1) md"
  let ?E3 = "enumerate_from (int j) post"
  have en: "enumerate_from 0 ls = ?E1 @ (int i, ls ! i) # ?E2 @ ?E3"
  proof -
    have "enumerate_from 0 ls = enumerate_from 0 (pre @ (ls ! i) # md @ post)" using ls by simp
    also have "\<dots> = ?E1 @ (int i, ls ! i) # enumerate_from (int i + 1) (md @ post)"
      by (simp add: enumerate_from_append lpre)
    also have "enumerate_from (int i + 1) (md @ post) = ?E2 @ enumerate_from (int i + 1 + int (j - Suc i)) post"
      by (simp add: enumerate_from_append lmd)
    also have "int i + 1 + int (j - Suc i) = int j" using ij by simp
    finally show ?thesis .
  qed
  have name: "name \<noteq> []" using d by (rule func_name_nonempty)
  have b1: "\<forall>x\<in>set ?E1. fst x < line"
  proof
    fix x assume "x \<in> set ?E1"
    then have "(fst x, snd x) \<in> set ?E1" by simp
    from in_enumerate_fromD[OF this] lpre lo show "fst x < line" by auto
  qed
  from loop_before[of ?E1 line None None "(int i, ls ! i) # ?E2 @ ?E3", OF b1]
  obtain c' s' where s1: "find_function_loop line None None (enumerate_from 0 ls)
      = find_function_loop line c' s' ((int i, ls ! i) # ?E2 @ ?E3)"
    using en by auto
  have nb: "\<not> span_brackets c' s' line (int i + 1 - 1)"
    using lo span_brackets_upper by fastforce
  have s2: "find_function_loop line c' s' ((int i, ls ! i) # ?E2 @ ?E3)
      = find_function_loop line (Some name) (Some (int i + 1)) (?E2 @ ?E3)"
    using d nb by (simp add: Let_def)
  have b2: "\<forall>x\<in>set ?E2. re_search_group True func_pattern (snd x) = None"
  proof
    fix x assume "x \<in> set ?E2"
    then have "(fst x, snd x) \<in> set ?E2" by simp
    from in_enumerate_fromD[OF this] obtain k where k: "k < length md" "snd x = md ! k" by blast
    then have "snd x = ls ! (Suc i + k)" unfolding md_def using j by simp
    moreover have "i < Suc i + k" "Suc i + k < j" using k lmd by auto
    ultimately show "re_search_group True func_pattern (snd x) = None" using mid by metis
  qed
  have s3: "find_function_loop line (Some name) (Some (int i + 1)) (?E2 @ ?E3)
      = find_function_loop line (Some name) (Some (int i + 1)) ?E3"
    using b2 by (rule loop_skip)
  have sp: "\<And>h. line \<le> h \<Longrightarrow> span_brackets (Some name) (Some (int i + 1)) line h"
    using name lo by (simp add: span_brackets_Some)
  show ?thesis
  proof (cases "j < length ls")
    case True
    then have "post = (ls ! j) # drop (Suc j) ls" unfolding post_def by (simp add: Cons_nth_drop_Suc)
    then have e3: "?E3 = (int j, ls ! j) # enumerate_from (int j + 1) (drop (Suc j) ls)" by simp
    from nxt[OF True] obtain n2 where n2: "re_search_group True func_pattern (ls ! j) = Some n2" by blast
    have "find_function_loop line (Some name) (Some (int i + 1)) ?E3 = Inl (Some name, Some (int i + 1), int j)"
      unfolding e3 using n2 sp[of "int j + 1 - 1"] hi by (simp add: Let_def)
    then show ?thesis unfolding find_function_in_lines_def using s1 s2 s3 by simp
  next
    case False
    then have jl: "j = length ls" using j by simp
    then have "post = []" unfolding post_def by simp
    then have "find_function_loop line (Some name) (Some (int i + 1)) ?E3 = Inr (Some name, Some (int i + 1))"
      by simp
    then show ?thesis unfolding find_function_in_lines_def using s1 s2 s3 sp[of "int (length ls)"] hi jl by simp
  qed
qed

lemma find_function_in_lines_global:
  assumes "\<And>k. k < length ls \<Longrightarrow> re_search_group True func_pattern (ls ! k) \<noteq> None \<Longrightarrow> line < int k + 1"
  shows "find_function_in_lines ls line = (Some ''global'', Some 1, int (length ls))"
proof -
  have later: "\<forall>x\<in>set (enumerate_from 0 ls). re_search_group True func_pattern (snd x) \<noteq> None \<longrightarrow> line < fst x + 1"
  proof (intro ballI impI)
    fix x assume "x \<in> set (enumerate_from 0 ls)" and b: "re_search_group True func_pattern (snd x) \<noteq> None"
    then have a: "(fst x, snd x) \<in> set (enumerate_from 0 ls)" by simp
    from in_enumerate_fromD[OF a] obtain k where "k < length ls" "fst x = int k" "snd x = ls ! k" by auto
    with assms[of k] b show "line < fst x + 1" by simp
  qed
  have "(None :: int option) = None \<or> (\<exists>v. (None :: int option) = Some v \<and> line < v)" by simp
  from loop_all_later[where c = None and s = None, OF later this] obtain c' s' where
    r: "find_function_loop line None None (enumerate_from 0 ls) = Inr (c', s')"
    and s: "s' = None \<or> (\<exists>v. s' = Some v \<and> line < v)" by blast
  have "\<not> span_brackets c' s' line (int (length ls))"
    using s by (auto simp: span_brackets_def split: option.splits)
  then show ?thesis unfolding find_function_in_lines_def using r by simp
qed

lemma find_function_in_lines_cases:
  assumes "find_function_in_lines ls line = (n, s, e)"
  shows "(\<exists>f v. n = Some f \<and> s = Some v \<and> f \<noteq> [] \<and> v \<le> line \<and> line \<le> e)
       \<or> (n = Some ''global'' \<and> s = Some 1 \<and> e = int (length ls))"
proof (cases "find_function_loop line None None (enumerate_from 0 ls)")
  case (Inl r)
  then have "r = (n, s, e)" using assms unfolding find_function_in_lines_def by simp
  with Inl have "span_brackets n s line e" using loop_returns_span by blast
  then show ?thesis using span_brackets_bounds by blast
next
  case (Inr st)
  obtain c' s' where st: "st = (c', s')" by (cases st)
  show ?thesis
  proof (cases "span_brackets c' s' line (int (length ls))")
    case True
    then have "(n, s, e) = (c', s', int (length ls))"
      using assms Inr st unfolding find_function_in_lines_def by simp
    then show ?thesis using True span_brackets_bounds by blast
  next
    case False
    then have "(n, s, e) = (Some ''global'', Some 1, int (length ls))"
      using assms Inr st unfolding find_function_in_lines_def by simp
    then show ?thesis by simp
  qed
qed


lemma readlines_two_functions:
  "readlines two_functions = [''<?php'' @ [CHR 0x0A], ''function foo($x) {'' @ [CHR 0x0A],
     ''  return $x;'' @ [CHR 0x0A], ''}'' @ [CHR 0x0A], ''function bar() {'' @ [CHR 0x0A], ''}'' @ [CHR 0x0A]]"
  by code_simp

lemma two_functions_defs:
  "map (re_search_group True func_pattern) (readlines two_functions)
     = [None, Some ''foo'', None, None, Some ''bar'', None]"
  by code_simp

text \<open>
  Claim C4. In a readable file, let line \<open>i + 1\<close> hold a recognized definition of \<open>name\<close>,
  and let \<open>j\<close> be the last line before the next recognized definition, or the last line of
  the file when no definition follows. For every line from \<open>i + 1\<close> to \<open>j\<close>,
  \<open>find_function_at_line\<close> returns \<open>name\<close> with the span from \<open>i + 1\<close> to \<open>j\<close>, which
  contains the line.
\<close>

theorem find_function_at_line_inside:
  assumes "file_at fs file_path = Text t"
    and "i < length (readlines t)"
    and "re_search_group True func_pattern (readlines t ! i) = Some name"
    and "i < j" and "j \<le> length (readlines t)"
    and "\<forall>k. i < k \<and> k < j \<longrightarrow> re_search_group True func_pattern (readlines t ! k) = None"
    and "j < length (readlines t) \<longrightarrow> re_search_group True func_pattern (readlines t ! j) \<noteq> None"
    and "int i + 1 \<le> line" and "line \<le> int j"
  shows "find_function_at_line fs file_path line = (Some name, Some (int i + 1), Some (int j))"
proof -
  have "find_function_in_lines (readlines t) line = (Some name, Some (int i + 1), int j)"
    using assms(2-9) by (intro find_function_in_lines_inside) auto
  then show ?thesis using assms(1) by (simp add: find_function_at_line_def)
qed

text \<open>
  An instance: line 3 of a file whose line 2 defines \<open>foo\<close> and whose line 5 defines \<open>bar\<close>.
\<close>

theorem find_function_at_line_inside_witness:
  "find_function_at_line (tree_of [(''a.php'', Text two_functions)]) ''a.php'' 3
     = (Some ''foo'', Some 2, Some 4)"
proof -
  let ?fs = "tree_of [(''a.php'', Text two_functions)]"
  let ?ls = "readlines two_functions"
  have defs: "map (re_search_group True func_pattern) ?ls = [None, Some ''foo'', None, None, Some ''bar'', None]"
    by (rule two_functions_defs)
  have len: "length ?ls = 6" using arg_cong[OF defs, of length] by simp
  have nth: "\<And>k. k < 6 \<Longrightarrow> re_search_group True func_pattern (?ls ! k)
      = [None, Some ''foo'', None, None, Some ''bar'', None] ! k"
    using defs len by (metis nth_map)
  have h1: "file_at ?fs ''a.php'' = Text two_functions" by (simp add: tree_of_def)
  have h2: "1 < length ?ls" using len by simp
  have h3: "re_search_group True func_pattern (?ls ! 1) = Some ''foo''" using nth[of 1] by simp
  have h4: "(1::nat) < 4" by simp
  have h5: "4 \<le> length ?ls" using len by simp
  have h6: "\<forall>k. 1 < k \<and> k < 4 \<longrightarrow> re_search_group True func_pattern (?ls ! k) = None"
  proof (intro allI impI)
    fix k :: nat assume "1 < k \<and> k < 4"
    then have "k = 2 \<or> k = 3" by auto
    then show "re_search_group True func_pattern (?ls ! k) = None"
      using nth[of 2] nth[of 3] by auto
  qed
  have h7: "4 < length ?ls \<longrightarrow> re_search_group True func_pattern (?ls ! 4) \<noteq> None"
    using nth[of 4] by simp
  have h8: "int 1 + 1 \<le> 3" by simp
  have h9: "(3::int) \<le> int 4" by simp
  show ?thesis
    using find_function_at_line_inside[OF h1 h2 h3 h4 h5 h6 h7 h8 h9] by simp
qed

text \<open>
  Claim C5. In a readable file, when the target line lies before every recognized definition
  (in particular when the file has none), \<open>find_function_at_line\<close> returns the span named
  \<open>global\<close> from line 1 to the number of lines of the file.
\<close>

theorem find_function_at_line_global:
  assumes "file_at fs file_path = Text t"
    and "\<forall>k<length (readlines t).
           re_search_group True func_pattern (readlines t ! k) \<noteq> None \<longrightarrow> line < int k + 1"
  shows "find_function_at_line fs file_path line
           = (Some ''global'', Some 1, Some (int (length (readlines t))))"
proof -
  have "find_function_in_lines (readlines t) line = (Some ''global'', Some 1, int (length (readlines t)))"
    using assms(2) by (intro find_function_in_lines_global) auto
  then show ?thesis using assms(1) by (simp add: find_function_at_line_def)
qed

text \<open>
  An instance: line 1 of the same file, whose first definition is on line 2.
\<close>

theorem find_function_at_line_global_witness:
  "find_function_at_line (tree_of [(''a.php'', Text two_functions)]) ''a.php'' 1
     = (Some ''global'', Some 1, Some 6)"
proof -
  let ?fs = "tree_of [(''a.php'', Text two_functions)]"
  let ?ls = "readlines two_functions"
  have defs: "map (re_search_group True func_pattern) ?ls = [None, Some ''foo'', None, None, Some ''bar'', None]"
    by (rule two_functions_defs)
  have len: "length ?ls = 6" using arg_cong[OF defs, of length] by simp
  have nth: "\<And>k. k < 6 \<Longrightarrow> re_search_group True func_pattern (?ls ! k)
      = [None, Some ''foo'', None, None, Some ''bar'', None] ! k"
    using defs len by (metis nth_map)
  have h1: "file_at ?fs ''a.php'' = Text two_functions" by (simp add: tree_of_def)
  have h2: "\<forall>k<length ?ls. re_search_group True func_pattern (?ls ! k) \<noteq> None \<longrightarrow> 1 < int k + 1"
  proof (intro allI impI)
    fix k assume k: "k < length ?ls" and d: "re_search_group True func_pattern (?ls ! k) \<noteq> None"
    have "k \<noteq> 0"
    proof
      assume "k = 0"
      with d nth[of 0] show False by simp
    qed
    then show "1 < int k + 1" by simp
  qed
  show ?thesis using find_function_at_line_global[OF h1 h2] len by simp
qed

text \<open>
  Claim C8, as amended. For a readable file with at least one line, the span that
  \<open>find_function_at_line\<close> returns has its start at or before its end. The span is either
  one that contains the queried line, or the span \<open>global\<close> from 1 to the number of lines of
  the file, whatever that number is.
\<close>

theorem find_function_at_line_span:
  assumes "file_at fs file_path = Text t"
    and "find_function_at_line fs file_path line = (n, s, e)"
  shows "\<exists>s' e'. s = Some s' \<and> e = Some e'
           \<and> (readlines t \<noteq> [] \<longrightarrow> s' \<le> e')
           \<and> ((s' \<le> line \<and> line \<le> e')
               \<or> (n = Some ''global'' \<and> s' = 1 \<and> e' = int (length (readlines t))))"
proof -
  obtain n0 s0 e0 where r: "find_function_in_lines (readlines t) line = (n0, s0, e0)"
    by (cases "find_function_in_lines (readlines t) line") auto
  with assms have eq: "n = n0" "s = s0" "e = Some e0" by (simp_all add: find_function_at_line_def)
  from find_function_in_lines_cases[OF r]
  show ?thesis
  proof
    assume "\<exists>f v. n0 = Some f \<and> s0 = Some v \<and> f \<noteq> [] \<and> v \<le> line \<and> line \<le> e0"
    then show ?thesis using eq by auto
  next
    assume g: "n0 = Some ''global'' \<and> s0 = Some 1 \<and> e0 = int (length (readlines t))"
    have "readlines t \<noteq> [] \<longrightarrow> 1 \<le> int (length (readlines t))"
      by (cases "readlines t") auto
    then show ?thesis using eq g by auto
  qed
qed

text \<open>
  An instance: line 3 of the file above.
\<close>

theorem find_function_at_line_span_witness:
  "\<exists>s' e'. Some (2::int) = Some s' \<and> Some (4::int) = Some e'
           \<and> (readlines two_functions \<noteq> [] \<longrightarrow> s' \<le> e')
           \<and> ((s' \<le> 3 \<and> 3 \<le> e')
               \<or> (Some ''foo'' = Some ''global'' \<and> s' = 1 \<and> e' = int (length (readlines two_functions))))"
proof -
  let ?fs = "tree_of [(''a.php'', Text two_functions)]"
  have h1: "file_at ?fs ''a.php'' = Text two_functions" by (simp add: tree_of_def)
  have h2: "find_function_at_line ?fs ''a.php'' 3 = (Some ''foo'', Some 2, Some 4)"
    by code_simp
  show ?thesis by (rule find_function_at_line_span[OF h1 h2])
qed

text \<open>
  Claim C8 as stated fails on a file without lines: the span returned there starts at 1 and
  ends at 0.
\<close>

theorem empty_file_span_counterexample:
  "find_function_at_line (tree_of [(''empty.php'', Text [])]) ''empty.php'' 1
     = (Some ''global'', Some 1, Some 0) \<and> \<not> ((1::int) \<le> 0)"
  by code_simp


section \<open>The scanner of sources and sinks\<close>

lemma scan_fold:
  "fold (\<lambda>(line_num, line_content) (found_sources, found_sinks).
        (found_sources @ line_matches re_search file sources line_num line_content,
         found_sinks @ line_matches re_search file sinks line_num line_content)) xs (a, b)
   = (a @ all_line_matches re_search file sources xs, b @ all_line_matches re_search file sinks xs)"
  by (induction xs arbitrary: a b) (auto simp: all_line_matches_def)

lemma scan_lines_eq:
  "scan_lines re_search file sources sinks lines =
     (all_line_matches re_search file sources (enumerate_from 1 lines),
      all_line_matches re_search file sinks (enumerate_from 1 lines))"
  unfolding scan_lines_def by (simp add: scan_fold)

lemma all_line_matches_Cons:
  "all_line_matches re_search file pats ((n, l) # xs) =
     line_matches re_search file pats n l @ all_line_matches re_search file pats xs"
  by (simp add: all_line_matches_def)

lemma all_line_matches_Nil: "all_line_matches re_search file pats [] = []"
  by (simp add: all_line_matches_def)

lemma line_matches_line: "r \<in> set (line_matches re_search file pats n l) \<Longrightarrow> pm_line r = n"
  by (auto simp: line_matches_def)

lemma all_line_matches_ge:
  "r \<in> set (all_line_matches re_search file pats (enumerate_from s xs)) \<Longrightarrow> s \<le> pm_line r"
proof (induction xs arbitrary: s)
  case Nil
  then show ?case by (simp add: all_line_matches_Nil)
next
  case (Cons x xs)
  from Cons.prems have "r \<in> set (line_matches re_search file pats s x)
      \<or> r \<in> set (all_line_matches re_search file pats (enumerate_from (s + 1) xs))"
    by (simp add: all_line_matches_Cons)
  then show ?case using line_matches_line Cons.IH by fastforce
qed

lemma filter_line_matches_same:
  "filter (\<lambda>r. pm_line r = n) (line_matches re_search file pats n l) = line_matches re_search file pats n l"
  by (rule filter_True) (simp add: line_matches_line)

lemma filter_line_matches_other:
  "m \<noteq> n \<Longrightarrow> filter (\<lambda>r. pm_line r = m) (line_matches re_search file pats n l) = []"
  by (auto simp: filter_empty_conv dest: line_matches_line)

lemma records_of_line:
  "k < length xs \<Longrightarrow>
   filter (\<lambda>r. pm_line r = s + int k) (all_line_matches re_search file pats (enumerate_from s xs))
     = line_matches re_search file pats (s + int k) (xs ! k)"
proof (induction xs arbitrary: s k)
  case Nil
  then show ?case by simp
next
  case (Cons x xs)
  show ?case
  proof (cases k)
    case 0
    have "filter (\<lambda>r. pm_line r = s) (all_line_matches re_search file pats (enumerate_from (s + 1) xs)) = []"
    proof -
      have "\<And>r. r \<in> set (all_line_matches re_search file pats (enumerate_from (s + 1) xs)) \<Longrightarrow> pm_line r \<noteq> s"
        using all_line_matches_ge by fastforce
      then show ?thesis by (simp add: filter_empty_conv)
    qed
    then show ?thesis using 0 by (simp add: all_line_matches_Cons filter_line_matches_same)
  next
    case (Suc k')
    then have k': "k' < length xs" using Cons.prems by simp
    have "s + int k \<noteq> s" using Suc by simp
    then have a: "filter (\<lambda>r. pm_line r = s + int k) (line_matches re_search file pats s x) = []"
      by (rule filter_line_matches_other)
    have b: "s + int k = (s + 1) + int k'" using Suc by simp
    show ?thesis using Cons.IH[OF k', of "s + 1"] a Suc
      by (simp add: all_line_matches_Cons add.assoc)
  qed
qed

lemma line_matches_patterns:
  "map pm_pattern (line_matches re_search file pats n l) = filter (\<lambda>p. re_search p l) pats"
  by (simp add: line_matches_def comp_def)

text \<open>
  Claim C6. For a readable file and any two lists of patterns, the records that
  \<open>analyze_sources_sinks\<close> returns for a line are, in each category, one per pattern of
  that category that matches the line, in the order of the patterns: a line that \<open>k\<close>
  patterns match has \<open>k\<close> records. A line that a source pattern and a sink pattern both
  match has a record among the sources and a record among the sinks.
\<close>

theorem analyze_sources_sinks_per_line:
  assumes "file_at fs file_path = Text t"
    and "analyze_sources_sinks fs re_search file_path sources sinks = (found_sources, found_sinks)"
    and "k < length (readlines t)"
  shows "map pm_pattern (filter (\<lambda>r. pm_line r = int k + 1) found_sources)
           = filter (\<lambda>p. re_search p (readlines t ! k)) sources
       \<and> map pm_pattern (filter (\<lambda>r. pm_line r = int k + 1) found_sinks)
           = filter (\<lambda>p. re_search p (readlines t ! k)) sinks
       \<and> length (filter (\<lambda>r. pm_line r = int k + 1) found_sources)
           = length (filter (\<lambda>p. re_search p (readlines t ! k)) sources)
       \<and> length (filter (\<lambda>r. pm_line r = int k + 1) found_sinks)
           = length (filter (\<lambda>p. re_search p (readlines t ! k)) sinks)
       \<and> ((\<exists>p\<in>set sources. re_search p (readlines t ! k)) \<and> (\<exists>q\<in>set sinks. re_search q (readlines t ! k))
            \<longrightarrow> (\<exists>r\<in>set found_sources. pm_line r = int k + 1)
               \<and> (\<exists>r\<in>set found_sinks. pm_line r = int k + 1))"
proof -
  let ?l = "readlines t ! k"
  have fs: "found_sources = all_line_matches re_search None sources (enumerate_from 1 (readlines t))"
    and fk: "found_sinks = all_line_matches re_search None sinks (enumerate_from 1 (readlines t))"
    using assms(1,2) by (simp_all add: analyze_sources_sinks_def scan_lines_eq)
  have n: "int k + 1 = 1 + int k" by simp
  have a: "filter (\<lambda>r. pm_line r = int k + 1) found_sources = line_matches re_search None sources (1 + int k) ?l"
    unfolding fs n by (rule records_of_line[OF assms(3)])
  have b: "filter (\<lambda>r. pm_line r = int k + 1) found_sinks = line_matches re_search None sinks (1 + int k) ?l"
    unfolding fk n by (rule records_of_line[OF assms(3)])
  have ma: "map pm_pattern (filter (\<lambda>r. pm_line r = int k + 1) found_sources) = filter (\<lambda>p. re_search p ?l) sources"
    unfolding a by (rule line_matches_patterns)
  have mb: "map pm_pattern (filter (\<lambda>r. pm_line r = int k + 1) found_sinks) = filter (\<lambda>p. re_search p ?l) sinks"
    unfolding b by (rule line_matches_patterns)
  have la: "length (filter (\<lambda>r. pm_line r = int k + 1) found_sources) = length (filter (\<lambda>p. re_search p ?l) sources)"
    using arg_cong[OF ma, of length] by simp
  have lb: "length (filter (\<lambda>r. pm_line r = int k + 1) found_sinks) = length (filter (\<lambda>p. re_search p ?l) sinks)"
    using arg_cong[OF mb, of length] by simp
  have ea: "(\<exists>p\<in>set sources. re_search p ?l) \<Longrightarrow> \<exists>r\<in>set found_sources. pm_line r = int k + 1"
  proof -
    assume "\<exists>p\<in>set sources. re_search p ?l"
    then have "filter (\<lambda>p. re_search p ?l) sources \<noteq> []" by (simp add: filter_empty_conv)
    with la have "filter (\<lambda>r. pm_line r = int k + 1) found_sources \<noteq> []" by auto
    then show ?thesis by (simp add: filter_empty_conv)
  qed
  have eb: "(\<exists>p\<in>set sinks. re_search p ?l) \<Longrightarrow> \<exists>r\<in>set found_sinks. pm_line r = int k + 1"
  proof -
    assume "\<exists>p\<in>set sinks. re_search p ?l"
    then have "filter (\<lambda>p. re_search p ?l) sinks \<noteq> []" by (simp add: filter_empty_conv)
    with lb have "filter (\<lambda>r. pm_line r = int k + 1) found_sinks \<noteq> []" by auto
    then show ?thesis by (simp add: filter_empty_conv)
  qed
  show ?thesis using ma mb la lb ea eb by blast
qed

text \<open>
  An instance: the line \<open>echo _GET;\<close>, two source patterns and one sink pattern.
\<close>

theorem analyze_sources_sinks_per_line_witness:
  "map pm_pattern (filter (\<lambda>r. pm_line r = int 1 + 1)
       [\<lparr>pm_line = 2, pm_code = ''echo _GET;'', pm_pattern = ''_GET'', pm_file = None\<rparr>,
        \<lparr>pm_line = 2, pm_code = ''echo _GET;'', pm_pattern = ''GET'', pm_file = None\<rparr>])
     = filter (\<lambda>p. occurs_in p (readlines echo_get ! 1)) [''_GET'', ''GET'']
   \<and> map pm_pattern (filter (\<lambda>r. pm_line r = int 1 + 1)
       [\<lparr>pm_line = 2, pm_code = ''echo _GET;'', pm_pattern = ''echo'', pm_file = None\<rparr>])
     = filter (\<lambda>p. occurs_in p (readlines echo_get ! 1)) [''echo'']
   \<and> length (filter (\<lambda>r. pm_line r = int 1 + 1)
       [\<lparr>pm_line = 2, pm_code = ''echo _GET;'', pm_pattern = ''_GET'', pm_file = None\<rparr>,
        \<lparr>pm_line = 2, pm_code = ''echo _GET;'', pm_pattern = ''GET'', pm_file = None\<rparr>])
     = length (filter (\<lambda>p. occurs_in p (readlines echo_get ! 1)) [''_GET'', ''GET''])
   \<and> length (filter (\<lambda>r. pm_line r = int 1 + 1)
       [\<lparr>pm_line = 2, pm_code = ''echo _GET;'', pm_pattern = ''echo'', pm_file = None\<rparr>])
     = length (filter (\<lambda>p. occurs_in p (readlines echo_get ! 1)) [''echo''])
   \<and> (\<exists>p\<in>set [''_GET'', ''GET'']. occurs_in p (readlines echo_get ! 1))
   \<and> (\<exists>q\<in>set [''echo'']. occurs_in q (readlines echo_get ! 1))
   \<and> (\<exists>r\<in>set [\<lparr>pm_line = 2, pm_code = ''echo _GET;'', pm_pattern = ''_GET'', pm_file = None\<rparr>,
                   \<lparr>pm_line = 2, pm_code = ''echo _GET;'', pm_pattern = ''GET'', pm_file = None\<rparr>].
           pm_line r = int 1 + 1)
   \<and> (\<exists>r\<in>set [\<lparr>pm_line = 2, pm_code = ''echo _GET;'', pm_pattern = ''echo'', pm_file = None\<rparr>].
           pm_line r = int 1 + 1)"
proof -
  let ?fs = "tree_of [(''t.php'', Text echo_get)]"
  have h1: "file_at ?fs ''t.php'' = Text echo_get" by (simp add: tree_of_def)
  have h2: "analyze_sources_sinks ?fs occurs_in ''t.php'' [''_GET'', ''GET''] [''echo'']
      = ([\<lparr>pm_line = 2, pm_code = ''echo _GET;'', pm_pattern = ''_GET'', pm_file = None\<rparr>,
          \<lparr>pm_line = 2, pm_code = ''echo _GET;'', pm_pattern = ''GET'', pm_file = None\<rparr>],
         [\<lparr>pm_line = 2, pm_code = ''echo _GET;'', pm_pattern = ''echo'', pm_file = None\<rparr>])"
    by code_simp
  have h3: "1 < length (readlines echo_get)" by code_simp
  have m1: "\<exists>p\<in>set [''_GET'', ''GET'']. occurs_in p (readlines echo_get ! 1)" by code_simp
  have m2: "\<exists>q\<in>set [''echo'']. occurs_in q (readlines echo_get ! 1)" by code_simp
  note t = analyze_sources_sinks_per_line[OF h1 h2 h3]
  from t have c1: "map pm_pattern (filter (\<lambda>r. pm_line r = int 1 + 1)
       [\<lparr>pm_line = 2, pm_code = ''echo _GET;'', pm_pattern = ''_GET'', pm_file = None\<rparr>,
        \<lparr>pm_line = 2, pm_code = ''echo _GET;'', pm_pattern = ''GET'', pm_file = None\<rparr>])
     = filter (\<lambda>p. occurs_in p (readlines echo_get ! 1)) [''_GET'', ''GET'']"
    by (rule conjunct1)
  from t have c2: "map pm_pattern (filter (\<lambda>r. pm_line r = int 1 + 1)
       [\<lparr>pm_line = 2, pm_code = ''echo _GET;'', pm_pattern = ''echo'', pm_file = None\<rparr>])
     = filter (\<lambda>p. occurs_in p (readlines echo_get ! 1)) [''echo'']"
    by (rule conjunct1[OF conjunct2])
  from t have c3: "length (filter (\<lambda>r. pm_line r = int 1 + 1)
       [\<lparr>pm_line = 2, pm_code = ''echo _GET;'', pm_pattern = ''_GET'', pm_file = None\<rparr>,
        \<lparr>pm_line = 2, pm_code = ''echo _GET;'', pm_pattern = ''GET'', pm_file = None\<rparr>])
     = length (filter (\<lambda>p. occurs_in p (readlines echo_get ! 1)) [''_GET'', ''GET''])"
    by (rule conjunct1[OF conjunct2[OF conjunct2]])
  from t have c4: "length (filter (\<lambda>r. pm_line r = int 1 + 1)
       [\<lparr>pm_line = 2, pm_code = ''echo _GET;'', pm_pattern = ''echo'', pm_file = None\<rparr>])
     = length (filter (\<lambda>p. occurs_in p (readlines echo_get ! 1)) [''echo''])"
    by (rule conjunct1[OF conjunct2[OF conjunct2[OF conjunct2]]])
  from t have c5: "(\<exists>p\<in>set [''_GET'', ''GET'']. occurs_in p (readlines echo_get ! 1))
        \<and> (\<exists>q\<in>set [''echo'']. occurs_in q (readlines echo_get ! 1))
        \<longrightarrow> (\<exists>r\<in>set [\<lparr>pm_line = 2, pm_code = ''echo _GET;'', pm_pattern = ''_GET'', pm_file = None\<rparr>,
                        \<lparr>pm_line = 2, pm_code = ''echo _GET;'', pm_pattern = ''GET'', pm_file = None\<rparr>].
                pm_line r = int 1 + 1)
          \<and> (\<exists>r\<in>set [\<lparr>pm_line = 2, pm_code = ''echo _GET;'', pm_pattern = ''echo'', pm_file = None\<rparr>].
                pm_line r = int 1 + 1)"
    by (rule conjunct2[OF conjunct2[OF conjunct2[OF conjunct2]]])
  from c5 m1 m2 have c6: "(\<exists>r\<in>set [\<lparr>pm_line = 2, pm_code = ''echo _GET;'', pm_pattern = ''_GET'', pm_file = None\<rparr>,
                        \<lparr>pm_line = 2, pm_code = ''echo _GET;'', pm_pattern = ''GET'', pm_file = None\<rparr>].
                pm_line r = int 1 + 1)
          \<and> (\<exists>r\<in>set [\<lparr>pm_line = 2, pm_code = ''echo _GET;'', pm_pattern = ''echo'', pm_file = None\<rparr>].
                pm_line r = int 1 + 1)"
    by (rule mp[OF _ conjI])
  from c1 c2 c3 c4 m1 m2 c6 show ?thesis by (intro conjI) (erule conjunct1 conjunct2 | assumption)+
qed


section \<open>Dictionaries\<close>

lemma map_of_dict_set: "map_of (dict_set d k v) k' = (if k' = k then Some v else map_of d k')"
  by (induction d k v rule: dict_set.induct) auto

lemma map_of_dict_append:
  "map_of (dict_append d k v) k' = (if k' = k then Some (lookup_list d k @ [v]) else map_of d k')"
  by (induction d k v rule: dict_append.induct) (auto simp: lookup_list_def)

lemma keys_dict_append: "set (map fst (dict_append d k v)) = insert k (set (map fst d))"
  by (induction d k v rule: dict_append.induct) auto

lemma distinct_dict_append: "distinct (map fst d) \<Longrightarrow> distinct (map fst (dict_append d k v))"
proof (induction d k v rule: dict_append.induct)
  case (1 k v)
  show ?case by simp
next
  case (2 k' vs d k v)
  show ?case
  proof (cases "k' = k")
    case True
    with 2 show ?thesis by simp
  next
    case False
    have "k' \<notin> set (map fst (dict_append d k v))"
      using 2(2) False by (simp only: keys_dict_append) auto
    with 2 False show ?thesis by simp
  qed
qed

lemma lookup_list_dict_append:
  "lookup_list (dict_append d k v) k' = (if k' = k then lookup_list d k @ [v] else lookup_list d k')"
  by (simp add: lookup_list_def map_of_dict_append)

lemma lookup_list_fold_append:
  "lookup_list (fold (\<lambda>x d. dict_append d (kf x) (vf x)) xs d) k
     = lookup_list d k @ map vf (filter (\<lambda>x. kf x = k) xs)"
  by (induction xs arbitrary: d) (auto simp: lookup_list_dict_append)

lemma distinct_fold_append:
  "distinct (map fst d) \<Longrightarrow> distinct (map fst (fold (\<lambda>x d. dict_append d (kf x) (vf x)) xs d))"
  by (induction xs arbitrary: d) (auto simp: distinct_dict_append)

lemma map_of_fold_append_None:
  "map_of (fold (\<lambda>x d. dict_append d (kf x) (vf x)) xs d) k = None
     \<longleftrightarrow> map_of d k = None \<and> filter (\<lambda>x. kf x = k) xs = []"
proof (induction xs arbitrary: d)
  case Nil
  show ?case by simp
next
  case (Cons x xs)
  show ?case by (simp add: Cons.IH map_of_dict_append)
qed


section \<open>The scan of the project\<close>

lemma analyze_project_fold:
  "analyze_sources_sinks_in_project fs re_search sources sinks
     = fold (scan_step fs re_search sources sinks) (php_files fs) ([], [])"
  by (simp add: analyze_sources_sinks_in_project_def scan_step_def)

lemma scan_step_eq:
  "scan_step fs re_search sources sinks rel_path (a, b) =
     (if file_matches fs re_search sources rel_path \<noteq> []
      then dict_set a rel_path (file_matches fs re_search sources rel_path) else a,
      if file_matches fs re_search sinks rel_path \<noteq> []
      then dict_set b rel_path (file_matches fs re_search sinks rel_path) else b)"
  by (cases "file_at fs rel_path") (simp_all add: scan_step_def file_matches_def scan_lines_eq)

lemma fold_scan_step_maps:
  "map_of (fst (fold (scan_step fs re_search sources sinks) xs (a, b))) f
     = (if f \<in> set xs \<and> file_matches fs re_search sources f \<noteq> []
        then Some (file_matches fs re_search sources f) else map_of a f)
   \<and> map_of (snd (fold (scan_step fs re_search sources sinks) xs (a, b))) f
     = (if f \<in> set xs \<and> file_matches fs re_search sinks f \<noteq> []
        then Some (file_matches fs re_search sinks f) else map_of b f)"
proof (induction xs arbitrary: a b)
  case Nil
  show ?case by simp
next
  case (Cons x xs)
  show ?case
    by (simp only: fold_simps scan_step_eq Cons.IH) (auto simp: map_of_dict_set)
qed

lemma project_sources_map:
  "map_of (fst (analyze_sources_sinks_in_project fs re_search sources sinks)) f
     = (if f \<in> set (php_files fs) \<and> file_matches fs re_search sources f \<noteq> []
        then Some (file_matches fs re_search sources f) else None)"
  using fold_scan_step_maps[of fs re_search sources sinks "php_files fs" "[]" "[]" f]
  by (simp add: analyze_project_fold)

lemma project_sinks_map:
  "map_of (snd (analyze_sources_sinks_in_project fs re_search sources sinks)) f
     = (if f \<in> set (php_files fs) \<and> file_matches fs re_search sinks f \<noteq> []
        then Some (file_matches fs re_search sinks f) else None)"
  using fold_scan_step_maps[of fs re_search sources sinks "php_files fs" "[]" "[]" f]
  by (simp add: analyze_project_fold)

lemma fold_skip_identity:
  assumes "\<And>acc. step f acc = acc"
  shows "fold step (filter (\<lambda>p. p \<noteq> f) xs) acc = fold step xs acc"
  using assms by (induction xs arbitrary: acc) auto

lemma scan_step_unreadable:
  assumes "\<forall>t. file_at fs f \<noteq> Text t"
  shows "scan_step fs re_search sources sinks f acc = acc"
  using assms by (cases acc; cases "file_at fs f") (simp_all add: scan_step_def)

lemma scan_step_walk:
  "scan_step (fs\<lparr>walk := w\<rparr>) re_search sources sinks = scan_step fs re_search sources sinks"
  by (simp add: scan_step_def)

lemma php_files_without:
  "php_files (fs\<lparr>walk := filter (\<lambda>p. p \<noteq> f) (walk fs)\<rparr>) = filter (\<lambda>p. p \<noteq> f) (php_files fs)"
  by (simp add: php_files_def conj_commute)

lemma file_matches_unreadable:
  "\<forall>t. file_at fs f \<noteq> Text t \<Longrightarrow> file_matches fs re_search patterns f = []"
  by (cases "file_at fs f") (simp_all add: file_matches_def)

text \<open>
  Claim C9. When a file of the tree cannot be read, the scan of the project returns what it
  returns on the tree without that file, the file is a key of neither mapping, and every
  readable file of the walk has its own matches as its entries.
\<close>

theorem project_scan_skips_unreadable:
  assumes "\<forall>t. file_at fs f \<noteq> Text t"
  shows "analyze_sources_sinks_in_project fs re_search sources sinks
           = analyze_sources_sinks_in_project (fs\<lparr>walk := filter (\<lambda>p. p \<noteq> f) (walk fs)\<rparr>)
               re_search sources sinks
       \<and> map_of (fst (analyze_sources_sinks_in_project fs re_search sources sinks)) f = None
       \<and> map_of (snd (analyze_sources_sinks_in_project fs re_search sources sinks)) f = None
       \<and> (\<forall>g t. g \<in> set (php_files fs) \<and> file_at fs g = Text t \<longrightarrow>
             lookup_list (fst (analyze_sources_sinks_in_project fs re_search sources sinks)) g
               = fst (scan_lines re_search (Some g) sources sinks (readlines t))
           \<and> lookup_list (snd (analyze_sources_sinks_in_project fs re_search sources sinks)) g
               = snd (scan_lines re_search (Some g) sources sinks (readlines t)))"
proof -
  have a: "analyze_sources_sinks_in_project fs re_search sources sinks
           = analyze_sources_sinks_in_project (fs\<lparr>walk := filter (\<lambda>p. p \<noteq> f) (walk fs)\<rparr>)
               re_search sources sinks"
    unfolding analyze_project_fold php_files_without scan_step_walk
    by (rule fold_skip_identity[symmetric]) (rule scan_step_unreadable[OF assms])
  have b: "map_of (fst (analyze_sources_sinks_in_project fs re_search sources sinks)) f = None"
    by (simp add: project_sources_map file_matches_unreadable[OF assms])
  have c: "map_of (snd (analyze_sources_sinks_in_project fs re_search sources sinks)) f = None"
    by (simp add: project_sinks_map file_matches_unreadable[OF assms])
  have d: "\<And>g t. g \<in> set (php_files fs) \<Longrightarrow> file_at fs g = Text t \<Longrightarrow>
             lookup_list (fst (analyze_sources_sinks_in_project fs re_search sources sinks)) g
               = fst (scan_lines re_search (Some g) sources sinks (readlines t))
           \<and> lookup_list (snd (analyze_sources_sinks_in_project fs re_search sources sinks)) g
               = snd (scan_lines re_search (Some g) sources sinks (readlines t))"
    by (simp add: lookup_list_def project_sources_map project_sinks_map file_matches_def scan_lines_eq)
  show ?thesis using a b c d by blast
qed

text \<open>
  An instance: a tree with one readable and one unreadable file.
\<close>

theorem project_scan_skips_unreadable_witness:
  "(\<forall>t. file_at one_unreadable ''b.php'' \<noteq> Text t)
   \<and> analyze_sources_sinks_in_project one_unreadable occurs_in [''_GET''] [''echo'']
     = ([(''a.php'', [\<lparr>pm_line = 2, pm_code = ''echo _GET;'', pm_pattern = ''_GET'',
                        pm_file = Some ''a.php''\<rparr>])],
        [(''a.php'', [\<lparr>pm_line = 2, pm_code = ''echo _GET;'', pm_pattern = ''echo'',
                        pm_file = Some ''a.php''\<rparr>])])"
proof -
  have h: "\<forall>t. file_at one_unreadable ''b.php'' \<noteq> Text t"
    by (simp add: one_unreadable_def tree_of_def)
  have v: "analyze_sources_sinks_in_project
             (one_unreadable\<lparr>walk := filter (\<lambda>p. p \<noteq> ''b.php'') (walk one_unreadable)\<rparr>)
             occurs_in [''_GET''] [''echo'']
     = ([(''a.php'', [\<lparr>pm_line = 2, pm_code = ''echo _GET;'', pm_pattern = ''_GET'',
                        pm_file = Some ''a.php''\<rparr>])],
        [(''a.php'', [\<lparr>pm_line = 2, pm_code = ''echo _GET;'', pm_pattern = ''echo'',
                        pm_file = Some ''a.php''\<rparr>])])"
    by code_simp
  from project_scan_skips_unreadable[OF h, of occurs_in "[''_GET'']" "[''echo'']"]
  have "analyze_sources_sinks_in_project one_unreadable occurs_in [''_GET''] [''echo'']
      = analyze_sources_sinks_in_project
             (one_unreadable\<lparr>walk := filter (\<lambda>p. p \<noteq> ''b.php'') (walk one_unreadable)\<rparr>)
             occurs_in [''_GET''] [''echo'']"
    by (rule conjunct1)
  with v h show ?thesis by simp
qed


section \<open>The pipeline\<close>

lemma main_written:
  assumes "written (main fs re_search j args_file args_line sources sinks) = Some doc"
  shows "joern_usages doc = fst (joern_step j)"
    and "outcome (main fs re_search j args_file args_line sources sinks)
           = (case snd (joern_step j) of None \<Rightarrow> Uncaught (UnboundLocalError ''cpg_file'')
              | Some f \<Rightarrow> Completed)"
    and "all_sources doc = fst (analyze_sources_sinks_in_project fs re_search sources sinks)"
    and "all_sinks doc = snd (analyze_sources_sinks_in_project fs re_search sources sinks)"
    and "include_dependencies doc = find_include_dependencies fs"
    and "sources_in_target doc = fst (analyze_sources_sinks fs re_search args_file sources sinks)"
    and "cross_file_taint_paths doc
           = build_cross_file_paths args_file args_line (sources_in_target doc)
               (include_dependencies doc) (all_sinks doc)"
    and "function_chains doc
             = called_from_chains (target_function_of doc) (target_func (doc_target doc))
                 (build_function_call_graph fs)
               @ calls_chains (target_func (doc_target doc)) args_file
                   (extract_function_calls fs args_file) (find_function_definitions fs)"
    and "\<exists>st en. find_function_at_line fs args_file args_line
           = (Some (target_func (doc_target doc)), st, en) \<and> target_func (doc_target doc) \<noteq> []"
  using assms unfolding main_def
  by (auto simp: Let_def target_function_of_def split: prod.splits option.splits if_splits)

lemma main_writes:
  assumes "find_function_at_line fs args_file args_line = (Some name, st, en)" and "name \<noteq> []"
  shows "\<exists>doc. written (main fs re_search j args_file args_line sources sinks) = Some doc"
  using assms unfolding main_def
  by (auto simp: Let_def split: prod.splits option.splits if_splits)

lemma fold_invariant:
  assumes "\<And>x d. P d \<Longrightarrow> P (f x d)" and "P d"
  shows "P (fold f xs d)"
  using assms(2) by (induction xs arbitrary: d) (auto intro: assms(1))

lemma include_dependencies_distinct: "distinct (map fst (find_include_dependencies fs))"
  unfolding find_include_dependencies_def
proof (rule fold_invariant)
  show "distinct (map fst ([] :: (string \<times> string list) list))" by simp
next
  fix x :: string and d :: "(string \<times> string list) list"
  assume d: "distinct (map fst d)"
  show "distinct (map fst (case file_at fs x of
          Text content \<Rightarrow> fold (\<lambda>edge deps. dict_append deps x edge) (file_includes fs x content) d
        | _ \<Rightarrow> d))"
  proof (cases "file_at fs x")
    case (Text content)
    have "distinct (map fst (fold (\<lambda>edge deps. dict_append deps x edge) (file_includes fs x content) d))"
      by (rule fold_invariant) (auto intro: distinct_dict_append d)
    then show ?thesis using Text by simp
  qed (simp_all add: d)
qed

lemma files_including_target_distinct:
  "distinct (map fst deps) \<Longrightarrow> distinct (files_including_target args_file deps)"
  unfolding files_including_target_def by (rule distinct_map_filter)

lemma files_including_target_iff:
  "file \<in> set (files_including_target args_file deps)
     \<longleftrightarrow> (\<exists>ds. (file, ds) \<in> set deps \<and> includes_target args_file ds)"
  unfolding files_including_target_def by force

lemma paths_of_file:
  assumes "distinct fl" and "\<And>g p. p \<in> set (G g) \<Longrightarrow> sink_file p = g"
  shows "filter (\<lambda>p. sink_file p = f) (concat (map G fl)) = (if f \<in> set fl then G f else [])"
  using assms(1)
proof (induction fl)
  case Nil
  show ?case by simp
next
  case (Cons g fl)
  have same: "filter (\<lambda>p. sink_file p = g) (G g) = G g"
    by (rule filter_True) (simp add: assms(2))
  have other: "f \<noteq> g \<Longrightarrow> filter (\<lambda>p. sink_file p = f) (G g) = []"
    by (auto simp: filter_empty_conv dest: assms(2))
  show ?case
  proof (cases "f = g")
    case True
    then have "f \<notin> set fl" using Cons.prems by simp
    then show ?thesis using Cons True same by simp
  next
    case False
    then show ?thesis using Cons other by simp
  qed
qed

lemma build_cross_file_paths_eq:
  "build_cross_file_paths args_file args_line target_sources include_deps sinks_by_file
     = concat (map (\<lambda>f. map (sink_path args_file args_line target_sources f) (lookup_list sinks_by_file f))
         (files_including_target args_file include_deps))"
  unfolding build_cross_file_paths_def lookup_list_def
  by (rule arg_cong[where f = concat], rule map_cong) (auto split: option.splits)

lemma sink_path_fields:
  "sink_file (sink_path a l ts f s) = f"
  "source_file (sink_path a l ts f s) = a"
  "source_line (sink_path a l ts f s) = l"
  "connection_type (sink_path a l ts f s) = ''include_dependency''"
  "include_chain (sink_path a l ts f s) = [a, f]"
  by (simp_all add: sink_path_def)

lemma cross_paths_per_file:
  assumes "distinct (map fst include_deps)"
  shows "filter (\<lambda>p. sink_file p = file)
           (build_cross_file_paths args_file args_line target_sources include_deps sinks_by_file)
       = (if \<exists>deps. (file, deps) \<in> set include_deps \<and> includes_target args_file deps
          then map (sink_path args_file args_line target_sources file) (lookup_list sinks_by_file file)
          else [])"
proof -
  have "filter (\<lambda>p. sink_file p = file)
           (build_cross_file_paths args_file args_line target_sources include_deps sinks_by_file)
       = (if file \<in> set (files_including_target args_file include_deps)
          then map (sink_path args_file args_line target_sources file) (lookup_list sinks_by_file file)
          else [])"
    unfolding build_cross_file_paths_eq
    by (rule paths_of_file[OF files_including_target_distinct[OF assms]])
       (auto simp: sink_path_fields)
  then show ?thesis by (simp only: files_including_target_iff)
qed

lemma cross_paths_nonempty:
  "build_cross_file_paths args_file args_line target_sources include_deps sinks_by_file \<noteq> []
     \<longleftrightarrow> (\<exists>file deps. (file, deps) \<in> set include_deps \<and> includes_target args_file deps
            \<and> lookup_list sinks_by_file file \<noteq> [])"
proof -
  let ?G = "\<lambda>f. map (sink_path args_file args_line target_sources f) (lookup_list sinks_by_file f)"
  have "concat (map ?G (files_including_target args_file include_deps)) \<noteq> []
      \<longleftrightarrow> (\<exists>f\<in>set (files_including_target args_file include_deps). lookup_list sinks_by_file f \<noteq> [])"
    by auto
  also have "\<dots> \<longleftrightarrow> (\<exists>file deps. (file, deps) \<in> set include_deps \<and> includes_target args_file deps
            \<and> lookup_list sinks_by_file file \<noteq> [])"
    using files_including_target_iff[of _ args_file include_deps] by (simp only: Bex_def) blast
  finally show ?thesis unfolding build_cross_file_paths_eq .
qed

lemma cross_paths_fields:
  assumes "p \<in> set (build_cross_file_paths args_file args_line target_sources include_deps sinks_by_file)"
  shows "connection_type p = ''include_dependency'' \<and> include_chain p = [args_file, sink_file p]
       \<and> source_file p = args_file \<and> source_line p = args_line"
  using assms unfolding build_cross_file_paths_eq by (auto simp: sink_path_fields)

lemma project_sinks_lookup:
  "lookup_list (snd (analyze_sources_sinks_in_project fs re_search sources sinks)) file
     = (if file \<in> set (php_files fs) then file_matches fs re_search sinks file else [])"
  by (simp add: lookup_list_def project_sinks_map)

text \<open>
  Claim C1. In every run that resolves its target, a taint path is emitted if and only if some
  file of the include dependencies has an edge that matches the target (the edge is the
  target's path, or the target's file name, or has the target's file name as its base name) and
  that file has at least one sink match in the scan of the project. The paths whose sink file is
  a given file are, in order, one per sink match of that file when the file includes the target,
  and none otherwise: so a file whose only sink match is removed has no path left. Every path
  has the connection type \<open>include_dependency\<close> and the include chain of the target
  followed by the including file. The sink matches of a file are its matches in the scan of
  the project.
\<close>

theorem cross_file_taint_paths_characterised:
  assumes "written (main fs re_search j args_file args_line sources sinks) = Some doc"
  shows "(cross_file_taint_paths doc \<noteq> [] \<longleftrightarrow>
            (\<exists>file deps. (file, deps) \<in> set (include_dependencies doc)
               \<and> (\<exists>dep\<in>set deps. args_file = dep \<or> basename args_file = dep
                      \<or> basename args_file = basename dep)
               \<and> lookup_list (all_sinks doc) file \<noteq> []))
       \<and> (\<forall>file. filter (\<lambda>p. sink_file p = file) (cross_file_taint_paths doc)
             = (if \<exists>deps. (file, deps) \<in> set (include_dependencies doc)
                     \<and> (\<exists>dep\<in>set deps. args_file = dep \<or> basename args_file = dep
                            \<or> basename args_file = basename dep)
                then map (sink_path args_file args_line (sources_in_target doc) file)
                       (lookup_list (all_sinks doc) file)
                else []))
       \<and> (\<forall>p\<in>set (cross_file_taint_paths doc).
             connection_type p = ''include_dependency'' \<and> include_chain p = [args_file, sink_file p]
             \<and> source_file p = args_file \<and> source_line p = args_line)
       \<and> (\<forall>file. lookup_list (all_sinks doc) file
             = (if file \<in> set (php_files fs) then file_matches fs re_search sinks file else []))"
proof -
  note w = main_written[OF assms]
  have d: "distinct (map fst (include_dependencies doc))"
    unfolding w(5) by (rule include_dependencies_distinct)
  have a: "cross_file_taint_paths doc \<noteq> [] \<longleftrightarrow>
            (\<exists>file deps. (file, deps) \<in> set (include_dependencies doc)
               \<and> (\<exists>dep\<in>set deps. args_file = dep \<or> basename args_file = dep
                      \<or> basename args_file = basename dep)
               \<and> lookup_list (all_sinks doc) file \<noteq> [])"
    unfolding w(7) cross_paths_nonempty includes_target_def list_ex_iff ..
  have b: "\<And>file. filter (\<lambda>p. sink_file p = file) (cross_file_taint_paths doc)
             = (if \<exists>deps. (file, deps) \<in> set (include_dependencies doc)
                     \<and> (\<exists>dep\<in>set deps. args_file = dep \<or> basename args_file = dep
                            \<or> basename args_file = basename dep)
                then map (sink_path args_file args_line (sources_in_target doc) file)
                       (lookup_list (all_sinks doc) file)
                else [])"
    unfolding w(7) cross_paths_per_file[OF d] includes_target_def list_ex_iff ..
  have c: "\<And>p. p \<in> set (cross_file_taint_paths doc) \<Longrightarrow>
             connection_type p = ''include_dependency'' \<and> include_chain p = [args_file, sink_file p]
             \<and> source_file p = args_file \<and> source_line p = args_line"
    unfolding w(7) by (rule cross_paths_fields)
  have e: "\<And>file. lookup_list (all_sinks doc) file
             = (if file \<in> set (php_files fs) then file_matches fs re_search sinks file else [])"
    unfolding w(4) by (rule project_sinks_lookup)
  show ?thesis using a b c e by blast
qed

text \<open>
  Claim C3, which the code does not meet. When \<open>detect_joern_dir\<close> or \<open>gen_cpg\<close> raises, the
  \<open>except\<close> clause sets the usages to the empty list and the result document is written,
  but \<open>cpg_file\<close> was never assigned: the clean-up after the document is written reads it
  and \<open>main\<close> ends with an uncaught \<open>UnboundLocalError\<close>.
\<close>

theorem joern_failure_leaves_cpg_file_unbound:
  assumes "written (main fs re_search j args_file args_line sources sinks) = Some doc"
    and "detect_joern_dir j = Inl e \<or> gen_cpg j = Inl e"
  shows "joern_usages doc = []
       \<and> outcome (main fs re_search j args_file args_line sources sinks)
           = Uncaught (UnboundLocalError ''cpg_file'')"
proof -
  have "joern_step j = ([], None)"
    using assms(2) by (auto simp: joern_step_def split: sum.splits)
  then show ?thesis using main_written(1,2)[OF assms(1)] by simp
qed

lemma included_target_function:
  "find_function_at_line included_target ''a.php'' 10 = (Some ''foo'', Some 5, Some 15)"
  by code_simp

text \<open>
  An instance: a run on a machine without Joern.
\<close>

theorem joern_failure_leaves_cpg_file_unbound_witness:
  "written (main included_target occurs_in joern_absent ''a.php'' 10 [] [''system'']) \<noteq> None
   \<and> outcome (main included_target occurs_in joern_absent ''a.php'' 10 [] [''system''])
       = Uncaught (UnboundLocalError ''cpg_file'')"
proof -
  obtain doc where d: "written (main included_target occurs_in joern_absent ''a.php'' 10 [] [''system'']) = Some doc"
    using main_writes[OF included_target_function, where re_search = occurs_in and j = joern_absent
        and sources = "[]" and sinks = "[''system'']"] by auto
  have j: "detect_joern_dir joern_absent = Inl (RuntimeError ''Joern directory not found'')
         \<or> gen_cpg joern_absent = Inl (RuntimeError ''Joern directory not found'')"
    by (simp add: joern_absent_def)
  from joern_failure_leaves_cpg_file_unbound[OF d j] d show ?thesis by simp
qed

lemma three_ways_function:
  "find_function_at_line included_three_ways ''lib/a.php'' 10 = (Some ''foo'', Some 5, Some 15)"
  by code_simp

lemma three_ways_deps:
  "find_include_dependencies included_three_ways
     = [(''b.php'', [''lib/a.php'']), (''c.php'', [''a.php'']), (''d.php'', [''old/a.php'']),
        (''e.php'', [''other.php'']), (''f.php'', [''lib/a.php''])]"
  by code_simp

lemma three_ways_php:
  "php_files included_three_ways
     = [''b.php'', ''c.php'', ''d.php'', ''e.php'', ''f.php'', ''lib/a.php'']"
  by code_simp

lemma three_ways_sinks:
  "file_matches included_three_ways occurs_in [''system''] ''b.php''
     = [\<lparr>pm_line = 3, pm_code = ''system(1);'', pm_pattern = ''system'', pm_file = Some ''b.php''\<rparr>]"
  "file_matches included_three_ways occurs_in [''system''] ''c.php''
     = [\<lparr>pm_line = 3, pm_code = ''system(2);'', pm_pattern = ''system'', pm_file = Some ''c.php''\<rparr>]"
  "file_matches included_three_ways occurs_in [''system''] ''d.php''
     = [\<lparr>pm_line = 3, pm_code = ''system(3);'', pm_pattern = ''system'', pm_file = Some ''d.php''\<rparr>]"
  "file_matches included_three_ways occurs_in [''system''] ''e.php''
     = [\<lparr>pm_line = 3, pm_code = ''system(4);'', pm_pattern = ''system'', pm_file = Some ''e.php''\<rparr>]"
  "file_matches included_three_ways occurs_in [''system''] ''f.php'' = []"
  by code_simp+

lemma three_ways_sources:
  "fst (analyze_sources_sinks included_three_ways occurs_in ''lib/a.php'' [] [''system'']) = []"
  by code_simp

lemma three_ways_basenames:
  "basename ''lib/a.php'' = ''a.php''" "basename ''old/a.php'' = ''a.php''"
  "basename ''a.php'' = ''a.php''" "basename ''other.php'' = ''other.php''"
  by code_simp+

text \<open>
  An instance: the target \<open>lib/a.php\<close> line 10. The file \<open>b.php\<close> includes it by a path that
  resolves to the target's path, \<open>c.php\<close> by an edge that is the target's file name,
  \<open>d.php\<close> by an edge that only has the target's file name as its base name; each has one
  sink match and one path. The file \<open>e.php\<close> has a sink match and includes another file,
  \<open>f.php\<close> includes the target and has no sink match: neither has a path.
\<close>

theorem cross_file_taint_paths_characterised_witness:
  "\<exists>doc. written (main included_three_ways occurs_in joern_absent ''lib/a.php'' 10 [] [''system''])
           = Some doc
     \<and> include_dependencies doc
         = [(''b.php'', [''lib/a.php'']), (''c.php'', [''a.php'']), (''d.php'', [''old/a.php'']),
            (''e.php'', [''other.php'']), (''f.php'', [''lib/a.php''])]
     \<and> cross_file_taint_paths doc \<noteq> []
     \<and> filter (\<lambda>p. sink_file p = ''b.php'') (cross_file_taint_paths doc)
         = [\<lparr>source_file = ''lib/a.php'', source_line = 10, source_sources = [],
             sink_file = ''b.php'', sink_line = 3, sink_code = ''system(1);'',
             connection_type = ''include_dependency'', include_chain = [''lib/a.php'', ''b.php'']\<rparr>]
     \<and> filter (\<lambda>p. sink_file p = ''c.php'') (cross_file_taint_paths doc)
         = [\<lparr>source_file = ''lib/a.php'', source_line = 10, source_sources = [],
             sink_file = ''c.php'', sink_line = 3, sink_code = ''system(2);'',
             connection_type = ''include_dependency'', include_chain = [''lib/a.php'', ''c.php'']\<rparr>]
     \<and> filter (\<lambda>p. sink_file p = ''d.php'') (cross_file_taint_paths doc)
         = [\<lparr>source_file = ''lib/a.php'', source_line = 10, source_sources = [],
             sink_file = ''d.php'', sink_line = 3, sink_code = ''system(3);'',
             connection_type = ''include_dependency'', include_chain = [''lib/a.php'', ''d.php'']\<rparr>]
     \<and> filter (\<lambda>p. sink_file p = ''e.php'') (cross_file_taint_paths doc) = []
     \<and> filter (\<lambda>p. sink_file p = ''f.php'') (cross_file_taint_paths doc) = []"
proof -
  obtain doc where d: "written (main included_three_ways occurs_in joern_absent ''lib/a.php'' 10 []
      [''system'']) = Some doc"
    using main_writes[OF three_ways_function, where re_search = occurs_in and j = joern_absent
        and sources = "[]" and sinks = "[''system'']"] by auto
  note c = cross_file_taint_paths_characterised[OF d]
  have deps: "include_dependencies doc
         = [(''b.php'', [''lib/a.php'']), (''c.php'', [''a.php'']), (''d.php'', [''old/a.php'']),
            (''e.php'', [''other.php'']), (''f.php'', [''lib/a.php''])]"
    using main_written(5)[OF d] three_ways_deps by simp
  have srcs: "sources_in_target doc = []"
    using main_written(6)[OF d] three_ways_sources by simp
  from c have look: "\<And>file. lookup_list (all_sinks doc) file
      = (if file \<in> set (php_files included_three_ways)
         then file_matches included_three_ways occurs_in [''system''] file else [])"
    by blast
  from c have per: "\<And>file. filter (\<lambda>p. sink_file p = file) (cross_file_taint_paths doc)
      = (if \<exists>deps. (file, deps) \<in> set (include_dependencies doc)
               \<and> (\<exists>dep\<in>set deps. ''lib/a.php'' = dep \<or> basename ''lib/a.php'' = dep
                      \<or> basename ''lib/a.php'' = basename dep)
         then map (sink_path ''lib/a.php'' 10 (sources_in_target doc) file)
                (lookup_list (all_sinks doc) file)
         else [])"
    by blast
  have b: "filter (\<lambda>p. sink_file p = ''b.php'') (cross_file_taint_paths doc)
         = [\<lparr>source_file = ''lib/a.php'', source_line = 10, source_sources = [],
             sink_file = ''b.php'', sink_line = 3, sink_code = ''system(1);'',
             connection_type = ''include_dependency'', include_chain = [''lib/a.php'', ''b.php'']\<rparr>]"
    unfolding per look deps srcs three_ways_php
    by (simp add: three_ways_sinks three_ways_basenames sink_path_def)
  have cc: "filter (\<lambda>p. sink_file p = ''c.php'') (cross_file_taint_paths doc)
         = [\<lparr>source_file = ''lib/a.php'', source_line = 10, source_sources = [],
             sink_file = ''c.php'', sink_line = 3, sink_code = ''system(2);'',
             connection_type = ''include_dependency'', include_chain = [''lib/a.php'', ''c.php'']\<rparr>]"
    unfolding per look deps srcs three_ways_php
    by (simp add: three_ways_sinks three_ways_basenames sink_path_def)
  have dd: "filter (\<lambda>p. sink_file p = ''d.php'') (cross_file_taint_paths doc)
         = [\<lparr>source_file = ''lib/a.php'', source_line = 10, source_sources = [],
             sink_file = ''d.php'', sink_line = 3, sink_code = ''system(3);'',
             connection_type = ''include_dependency'', include_chain = [''lib/a.php'', ''d.php'']\<rparr>]"
    unfolding per look deps srcs three_ways_php
    by (simp add: three_ways_sinks three_ways_basenames sink_path_def)
  have ee: "filter (\<lambda>p. sink_file p = ''e.php'') (cross_file_taint_paths doc) = []"
    unfolding per look deps srcs three_ways_php
    by (simp add: three_ways_sinks three_ways_basenames sink_path_def)
  have ff: "filter (\<lambda>p. sink_file p = ''f.php'') (cross_file_taint_paths doc) = []"
    unfolding per look deps srcs three_ways_php
    by (simp add: three_ways_sinks three_ways_basenames sink_path_def)
  from b have ne: "cross_file_taint_paths doc \<noteq> []" by auto
  from d deps ne b cc dd ee ff show ?thesis by blast
qed


section \<open>The include resolver\<close>














section \<open>Call chains\<close>

lemma call_graph_fold:
  "build_function_call_graph fs
     = fold (\<lambda>rel_path call_graph.
          fold (\<lambda>c graph. dict_append graph (call_function c) (site_of rel_path c))
            (extract_function_calls fs rel_path) call_graph)
        (php_files fs) []"
  by (simp add: build_function_call_graph_def site_of_def)

lemma lookup_graph_fold:
  "lookup_list (fold (\<lambda>rel g. fold (\<lambda>c g. dict_append g (call_function c) (site_of rel c)) (X rel) g) xs g0) k
     = lookup_list g0 k
       @ concat (map (\<lambda>rel. map (site_of rel) (filter (\<lambda>c. call_function c = k) (X rel))) xs)"
  by (induction xs arbitrary: g0) (simp_all add: lookup_list_fold_append)

lemma call_graph_sites:
  "lookup_list (build_function_call_graph fs) name
     = concat (map (\<lambda>rel. map (site_of rel)
                      (filter (\<lambda>c. call_function c = name) (extract_function_calls fs rel)))
                 (php_files fs))"
  unfolding call_graph_fold lookup_graph_fold by (simp add: lookup_list_def)

lemma called_from_chains_eq:
  "called_from_chains tf name graph
     = map (\<lambda>call_info. CalledFrom tf
              \<lparr>cf_file = caller_file call_info, cf_line = site_line call_info,
               cf_code = site_code call_info\<rparr>) (lookup_list graph name)"
  by (simp add: called_from_chains_def lookup_list_def split: option.splits)

lemma called_from_of_calls_chains:
  "concat (map called_from_of (calls_chains name file calls defs)) = []"
  by (auto simp: calls_chains_def split: option.splits)

lemma called_from_of_called_from_chains:
  "concat (map called_from_of (called_from_chains tf name graph))
     = map (\<lambda>call_info. \<lparr>cf_file = caller_file call_info, cf_line = site_line call_info,
                           cf_code = site_code call_info\<rparr>) (lookup_list graph name)"
  unfolding called_from_chains_eq by (induction "lookup_list graph name") (simp_all add: comp_def)


section \<open>The call extractor\<close>

lemma call_pattern_0: "call_patterns ! 0 = free_call"
  by (simp add: call_patterns_def seqs_def free_call_def call_tail_def)

lemma call_pattern_1: "call_patterns ! 1 = Seq (Lit CHR ''$'') free_call"
  by (simp add: call_patterns_def seqs_def free_call_def call_tail_def)

lemma call_pattern_2: "call_patterns ! 2 = Seq (Seq (Lit CHR ''-'') (Seq (Lit CHR ''>'') Eps)) free_call"
  by (simp add: call_patterns_def seqs_def lits_def free_call_def call_tail_def)

lemma call_pattern_3: "call_patterns ! 3 = Seq (Seq (Lit CHR '':'') (Seq (Lit CHR '':'') Eps)) free_call"
  by (simp add: call_patterns_def seqs_def lits_def free_call_def call_tail_def)

lemma one_char_match:
  "rx_match False (Seq (Lit a) r) pos g s
     = (if startswith s [a] then rx_match False r (pos + length [a]) g (drop (length [a]) s) else [])"
  by (cases s) auto

lemma two_char_match:
  "rx_match False (Seq (Seq (Lit a) (Seq (Lit b) Eps)) r) pos g s
     = (if startswith s [a, b] then rx_match False r (pos + length [a, b]) g (drop (length [a, b]) s)
        else [])"
proof (cases s)
  case Nil
  then show ?thesis by simp
next
  case (Cons x xs)
  then show ?thesis by (cases xs) auto
qed

lemma sigil_dollar: "sigil_pattern (call_patterns ! 1) ''$''"
  unfolding sigil_pattern_def call_pattern_1
  by (intro conjI allI one_char_match) (auto simp: is_space_def is_alpha_def is_digit_def Let_def)

lemma sigil_arrow: "sigil_pattern (call_patterns ! 2) ''->''"
  unfolding sigil_pattern_def call_pattern_2
  by (intro conjI allI two_char_match) (auto simp: is_space_def is_alpha_def is_digit_def Let_def)

lemma sigil_colons: "sigil_pattern (call_patterns ! 3) ''::''"
  unfolding sigil_pattern_def call_pattern_3
  by (intro conjI allI two_char_match) (auto simp: is_space_def is_alpha_def is_digit_def Let_def)

lemma shaped_call_is_free_call:
  assumes "k = 1 \<or> k = 2 \<or> k = 3"
    and "name \<in> set (re_findall False (call_patterns ! k) l)"
  shows "name \<in> set (re_findall False (call_patterns ! 0) l)"
proof -
  obtain sg where "sigil_pattern (call_patterns ! k) sg"
    using assms(1) sigil_dollar sigil_arrow sigil_colons by blast
  from sigil_names_free[OF this] assms(2) show ?thesis
    unfolding re_findall_def call_pattern_0 by blast
qed

lemma line_calls_eq:
  "line_calls n l = pattern_calls n l (call_patterns ! 0) @ pattern_calls n l (call_patterns ! 1)
      @ pattern_calls n l (call_patterns ! 2) @ pattern_calls n l (call_patterns ! 3)"
  by (simp add: line_calls_def pattern_calls_def call_patterns_def)

lemma pattern_calls_count:
  assumes "name \<in> set (re_findall False p l)" and "name \<notin> set call_keywords"
  shows "1 \<le> length (filter (\<lambda>c. call_function c = name) (pattern_calls n l p))"
proof -
  have "\<lparr>call_function = name, call_line = n, call_code = strip l\<rparr> \<in> set (pattern_calls n l p)"
    using assms by (auto simp: pattern_calls_def)
  moreover have "call_function \<lparr>call_function = name, call_line = n, call_code = strip l\<rparr> = name"
    by simp
  ultimately have "\<exists>x\<in>set (pattern_calls n l p). call_function x = name" by blast
  then have "filter (\<lambda>c. call_function c = name) (pattern_calls n l p) \<noteq> []"
    by (simp add: filter_empty_conv)
  then show ?thesis by (cases "filter (\<lambda>c. call_function c = name) (pattern_calls n l p)") auto
qed

lemma line_calls_twice:
  assumes "k = 1 \<or> k = 2 \<or> k = 3"
    and "name \<in> set (re_findall False (call_patterns ! k) l)"
    and "name \<notin> set call_keywords"
  shows "2 \<le> length (filter (\<lambda>c. call_function c = name) (line_calls n l))"
proof -
  have a: "1 \<le> length (filter (\<lambda>c. call_function c = name) (pattern_calls n l (call_patterns ! 0)))"
    using shaped_call_is_free_call[OF assms(1,2)] assms(3) by (rule pattern_calls_count)
  have b: "1 \<le> length (filter (\<lambda>c. call_function c = name) (pattern_calls n l (call_patterns ! k)))"
    using assms(2,3) by (rule pattern_calls_count)
  show ?thesis using a b assms(1) unfolding line_calls_eq by auto
qed

lemma line_calls_line: "c \<in> set (line_calls n l) \<Longrightarrow> call_line c = n"
  by (auto simp: line_calls_def)

lemma numbered_calls_ge:
  "c \<in> set (concat (map (\<lambda>(n, l). line_calls n l) (enumerate_from s xs))) \<Longrightarrow> s \<le> call_line c"
proof (induction xs arbitrary: s)
  case Nil
  then show ?case by simp
next
  case (Cons x xs)
  from Cons.prems have "c \<in> set (line_calls s x)
      \<or> c \<in> set (concat (map (\<lambda>(n, l). line_calls n l) (enumerate_from (s + 1) xs)))"
    by simp
  then show ?case using line_calls_line Cons.IH by fastforce
qed

lemma calls_of_line:
  "k < length xs \<Longrightarrow>
   filter (\<lambda>c. call_line c = s + int k) (concat (map (\<lambda>(n, l). line_calls n l) (enumerate_from s xs)))
     = line_calls (s + int k) (xs ! k)"
proof (induction xs arbitrary: s k)
  case Nil
  then show ?case by simp
next
  case (Cons x xs)
  show ?case
  proof (cases k)
    case 0
    have "filter (\<lambda>c. call_line c = s) (concat (map (\<lambda>(n, l). line_calls n l) (enumerate_from (s + 1) xs))) = []"
    proof -
      have "\<And>c. c \<in> set (concat (map (\<lambda>(n, l). line_calls n l) (enumerate_from (s + 1) xs))) \<Longrightarrow> call_line c \<noteq> s"
        using numbered_calls_ge by fastforce
      then show ?thesis by (simp add: filter_empty_conv)
    qed
    moreover have "filter (\<lambda>c. call_line c = s) (line_calls s x) = line_calls s x"
      by (rule filter_True) (simp add: line_calls_line)
    ultimately show ?thesis using 0 by simp
  next
    case (Suc k')
    then have k': "k' < length xs" using Cons.prems by simp
    have "s + int k \<noteq> s" using Suc by simp
    then have a: "filter (\<lambda>c. call_line c = s + int k) (line_calls s x) = []"
      by (auto simp: filter_empty_conv dest: line_calls_line)
    show ?thesis using Cons.IH[OF k', of "s + 1"] a Suc by (simp add: add.assoc)
  qed
qed

text \<open>
  Claim C10. On a line of a readable file where the pattern of a variable call, of a method
  call or of a static call finds a name that is not one of the keywords, the pattern of a
  regular call finds the same name, and \<open>extract_function_calls\<close> returns at least two
  records with that name and the number of that line.
\<close>

theorem shaped_call_counted_twice:
  assumes "file_at fs file_path = Text t" and "i < length (readlines t)"
    and "k = 1 \<or> k = 2 \<or> k = 3"
    and "name \<in> set (re_findall False (call_patterns ! k) (readlines t ! i))"
    and "name \<notin> set call_keywords"
  shows "name \<in> set (re_findall False (call_patterns ! 0) (readlines t ! i))
       \<and> 2 \<le> length (filter (\<lambda>c. call_function c = name \<and> call_line c = int i + 1)
                        (extract_function_calls fs file_path))"
proof -
  have e: "extract_function_calls fs file_path
      = concat (map (\<lambda>(n, l). line_calls n l) (enumerate_from 1 (readlines t)))"
    using assms(1) by (simp add: extract_function_calls_def)
  have "filter (\<lambda>c. call_function c = name \<and> call_line c = int i + 1) (extract_function_calls fs file_path)
      = filter (\<lambda>c. call_function c = name)
          (filter (\<lambda>c. call_line c = 1 + int i) (extract_function_calls fs file_path))"
    by (simp add: conj_commute add.commute)
  also have "\<dots> = filter (\<lambda>c. call_function c = name) (line_calls (1 + int i) (readlines t ! i))"
    unfolding e by (simp only: calls_of_line[OF assms(2)])
  finally have "length (filter (\<lambda>c. call_function c = name \<and> call_line c = int i + 1)
                        (extract_function_calls fs file_path))
      = length (filter (\<lambda>c. call_function c = name) (line_calls (1 + int i) (readlines t ! i)))"
    by simp
  then show ?thesis
    using line_calls_twice[OF assms(3,4,5)] shaped_call_is_free_call[OF assms(3,4)] by simp
qed

text \<open>
  An instance: the line \<open>$obj->run(1);\<close>.
\<close>

theorem shaped_call_counted_twice_witness:
  "''run'' \<in> set (re_findall False (call_patterns ! 0) (readlines method_call ! 1))
   \<and> 2 \<le> length (filter (\<lambda>c. call_function c = ''run'' \<and> call_line c = int 1 + 1)
                    (extract_function_calls (tree_of [(''m.php'', Text method_call)]) ''m.php''))"
proof -
  have h1: "file_at (tree_of [(''m.php'', Text method_call)]) ''m.php'' = Text method_call"
    by (simp add: tree_of_def)
  have h2: "1 < length (readlines method_call)" by code_simp
  have h3: "(2::nat) = 1 \<or> (2::nat) = 2 \<or> (2::nat) = 3" by simp
  have h4: "''run'' \<in> set (re_findall False (call_patterns ! 2) (readlines method_call ! 1))"
    by code_simp
  have h5: "''run'' \<notin> set call_keywords" by code_simp
  show ?thesis by (rule shaped_call_counted_twice[OF h1 h2 h3 h4 h5])
qed

section \<open>The chains of the callers\<close>

lemma two_members_length:
  assumes "x \<in> set xs" and "y \<in> set xs" and "x \<noteq> y"
  shows "2 \<le> length xs"
proof -
  have "card {x, y} \<le> card (set xs)" using assms(1,2) by (intro card_mono) auto
  moreover have "card {x, y} = 2" using assms(3) by simp
  moreover have "card (set xs) \<le> length xs" by (rule card_length)
  ultimately show ?thesis by simp
qed

lemma line_calls_member:
  assumes "k < length call_patterns"
    and "name \<in> set (re_findall False (call_patterns ! k) line_content)"
    and "name \<notin> set call_keywords"
  shows "\<lparr>call_function = name, call_line = line_num, call_code = strip line_content\<rparr>
           \<in> set (line_calls line_num line_content)"
proof -
  have "call_patterns ! k \<in> set call_patterns" using assms(1) by simp
  then show ?thesis unfolding line_calls_def using assms(2,3) by auto
qed

lemma extract_function_calls_member:
  assumes "file_at fs rel_path = Text t"
    and "(line_num, line_content) \<in> set (enumerate_from 1 (readlines t))"
    and "k < length call_patterns"
    and "name \<in> set (re_findall False (call_patterns ! k) line_content)"
    and "name \<notin> set call_keywords"
  shows "\<lparr>call_function = name, call_line = line_num, call_code = strip line_content\<rparr>
           \<in> set (extract_function_calls fs rel_path)"
  using line_calls_member[OF assms(3,4,5), of line_num] assms(1,2)
  unfolding extract_function_calls_def by force

lemma definition_line_call:
  assumes "re_search_group True func_pattern line_content = Some name"
  shows "0 < length call_patterns"
    and "name \<in> set (re_findall False (call_patterns ! 0) line_content)"
proof -
  show "0 < length call_patterns" by (simp add: call_patterns_def)
  show "name \<in> set (re_findall False (call_patterns ! 0) line_content)"
    using definition_line_is_call[OF assms] by (simp only: call_pattern_0)
qed


text \<open>
  Claim C2, as amended. In every run that resolves its target, the \<open>called_from\<close> chains are,
  file by file in the order of the walk, one per call site that \<open>extract_function_calls\<close>
  finds with the name of the target function. Where a line of \<open>a_php\<close> defines the target
  function and a line of \<open>c_php\<close> calls it, the chain of that call is among them, and so is
  a chain for the defining line, because the definition \<open>function foo(\<close> is itself matched
  by the pattern of a regular call: at least two chains are emitted, not exactly one.
\<close>

theorem called_from_chain_per_call_site:
  assumes w: "written (main fs re_search j args_file args_line sources sinks) = Some doc"
    and kw: "target_func (doc_target doc) \<notin> set call_keywords"
    and df: "file_at fs a_php = Text a_content" "a_php \<in> set (php_files fs)"
    and dl: "(def_num, def_text) \<in> set (enumerate_from 1 (readlines a_content))"
    and dm: "re_search_group True func_pattern def_text = Some (target_func (doc_target doc))"
    and cf: "file_at fs c_php = Text c_content" "c_php \<in> set (php_files fs)"
    and cl: "(call_num, call_text) \<in> set (enumerate_from 1 (readlines c_content))"
    and cm: "k < length call_patterns"
      "target_func (doc_target doc) \<in> set (re_findall False (call_patterns ! k) call_text)"
    and ne: "(c_php, call_num) \<noteq> (a_php, def_num)"
  shows "concat (map called_from_of (function_chains doc))
           = concat (map (\<lambda>rel_path.
                map (\<lambda>c. \<lparr>cf_file = rel_path, cf_line = call_line c, cf_code = call_code c\<rparr>)
                  (filter (\<lambda>c. call_function c = target_func (doc_target doc))
                     (extract_function_calls fs rel_path)))
               (php_files fs))
       \<and> \<lparr>cf_file = c_php, cf_line = call_num, cf_code = strip call_text\<rparr>
             \<in> set (concat (map called_from_of (function_chains doc)))
       \<and> \<lparr>cf_file = a_php, cf_line = def_num, cf_code = strip def_text\<rparr>
             \<in> set (concat (map called_from_of (function_chains doc)))
       \<and> 2 \<le> length (concat (map called_from_of (function_chains doc)))"
proof -
  let ?name = "target_func (doc_target doc)"
  let ?cf = "\<lambda>call_info. \<lparr>cf_file = caller_file call_info, cf_line = site_line call_info,
                           cf_code = site_code call_info\<rparr>"
  let ?rec = "\<lambda>rel_path c. \<lparr>cf_file = rel_path, cf_line = call_line c,
                              cf_code = call_code c\<rparr>"
  let ?chains = "concat (map called_from_of (function_chains doc))"
  have "?chains = map ?cf (lookup_list (build_function_call_graph fs) ?name)"
    unfolding main_written(8)[OF w]
    by (simp add: called_from_of_calls_chains called_from_of_called_from_chains)
  also have "\<dots> = concat (map (\<lambda>rel_path.
                map (?rec rel_path)
                  (filter (\<lambda>c. call_function c = ?name) (extract_function_calls fs rel_path)))
               (php_files fs))"
    unfolding call_graph_sites
    by (simp add: map_concat comp_def site_of_def)
  finally have eq: "?chains = concat (map (\<lambda>rel_path.
                map (?rec rel_path)
                  (filter (\<lambda>c. call_function c = ?name) (extract_function_calls fs rel_path)))
               (php_files fs))" .
  have mem: "\<And>rel_path c. rel_path \<in> set (php_files fs)
      \<Longrightarrow> c \<in> set (extract_function_calls fs rel_path) \<Longrightarrow> call_function c = ?name
      \<Longrightarrow> ?rec rel_path c \<in> set ?chains"
    unfolding eq by auto
  have c: "\<lparr>call_function = ?name, call_line = call_num, call_code = strip call_text\<rparr>
      \<in> set (extract_function_calls fs c_php)"
    by (rule extract_function_calls_member[OF cf(1) cl cm kw])
  have d: "\<lparr>call_function = ?name, call_line = def_num, call_code = strip def_text\<rparr>
      \<in> set (extract_function_calls fs a_php)"
    by (rule extract_function_calls_member[OF df(1) dl definition_line_call[OF dm] kw])
  have c': "\<lparr>cf_file = c_php, cf_line = call_num, cf_code = strip call_text\<rparr> \<in> set ?chains"
    using mem[OF cf(2) c] by simp
  have d': "\<lparr>cf_file = a_php, cf_line = def_num, cf_code = strip def_text\<rparr> \<in> set ?chains"
    using mem[OF df(2) d] by simp
  have "\<lparr>cf_file = c_php, cf_line = call_num, cf_code = strip call_text\<rparr>
      \<noteq> \<lparr>cf_file = a_php, cf_line = def_num, cf_code = strip def_text\<rparr>"
    using ne by auto
  from two_members_length[OF c' d' this] eq c' d' show ?thesis by simp
qed

lemma called_once_function:
  "find_function_at_line called_once ''a.php'' 6 = (Some ''foo'', Some 5, Some 7)"
  by code_simp

lemma called_once_php: "php_files called_once = [''a.php'', ''c.php'']"
  by code_simp

lemma called_once_calls_a:
  "filter (\<lambda>c. call_function c = ''foo'') (extract_function_calls called_once ''a.php'')
     = [\<lparr>call_function = ''foo'', call_line = 5, call_code = ''function foo() {''\<rparr>]"
  by code_simp

lemma called_once_calls_c:
  "filter (\<lambda>c. call_function c = ''foo'') (extract_function_calls called_once ''c.php'')
     = [\<lparr>call_function = ''foo'', call_line = 20, call_code = ''foo();''\<rparr>]"
  by code_simp

lemma called_once_a:
  "file_at called_once ''a.php''
     = Text (unlines [''<?php'', '''', '''', '''', ''function foo() {'', ''  return 1;'', ''}''])"
  by (simp add: called_once_def tree_of_def)

lemma called_once_c:
  "file_at called_once ''c.php'' = Text (unlines (''<?php'' # replicate 18 [] @ [''foo();'']))"
  by (simp add: called_once_def tree_of_def)

lemma called_once_definition_line:
  "(5, ''function foo() {'' @ [CHR 0x0A])
     \<in> set (enumerate_from 1
         (readlines (unlines [''<?php'', '''', '''', '''', ''function foo() {'', ''  return 1;'', ''}''])))"
  by code_simp

lemma called_once_definition_match:
  "re_search_group True func_pattern (''function foo() {'' @ [CHR 0x0A]) = Some ''foo''"
  by code_simp

lemma called_once_call_line:
  "(20, ''foo();'' @ [CHR 0x0A])
     \<in> set (enumerate_from 1 (readlines (unlines (''<?php'' # replicate 18 [] @ [''foo();'']))))"
  by code_simp

lemma called_once_call_match:
  "''foo'' \<in> set (re_findall False (call_patterns ! 0) (''foo();'' @ [CHR 0x0A]))"
  by code_simp

lemma called_once_codes:
  "strip (''function foo() {'' @ [CHR 0x0A]) = ''function foo() {''"
  "strip (''foo();'' @ [CHR 0x0A]) = ''foo();''"
  by code_simp+

text \<open>
  An instance: the scenario of the claim, \<open>foo\<close> defined on line 5 of \<open>a.php\<close> and called
  on line 20 of \<open>c.php\<close>, with a target line inside \<open>foo\<close>.
\<close>

theorem called_from_chain_per_call_site_witness:
  "\<exists>doc. written (main called_once occurs_in joern_present ''a.php'' 6 [] []) = Some doc
     \<and> target_func (doc_target doc) = ''foo''
     \<and> \<lparr>cf_file = ''c.php'', cf_line = 20, cf_code = ''foo();''\<rparr>
           \<in> set (concat (map called_from_of (function_chains doc)))
     \<and> \<lparr>cf_file = ''a.php'', cf_line = 5, cf_code = ''function foo() {''\<rparr>
           \<in> set (concat (map called_from_of (function_chains doc)))
     \<and> 2 \<le> length (concat (map called_from_of (function_chains doc)))
     \<and> concat (map called_from_of (function_chains doc))
         = [\<lparr>cf_file = ''a.php'', cf_line = 5, cf_code = ''function foo() {''\<rparr>,
            \<lparr>cf_file = ''c.php'', cf_line = 20, cf_code = ''foo();''\<rparr>]"
proof -
  obtain doc where d: "written (main called_once occurs_in joern_present ''a.php'' 6 [] []) = Some doc"
    using main_writes[OF called_once_function, where re_search = occurs_in and j = joern_present
        and sources = "[]" and sinks = "[]"] by auto
  have n: "target_func (doc_target doc) = ''foo''"
    using main_written(9)[OF d] called_once_function by auto
  have kw: "target_func (doc_target doc) \<notin> set call_keywords"
    unfolding n by (simp add: call_keywords_def)
  have php: "''a.php'' \<in> set (php_files called_once)" "''c.php'' \<in> set (php_files called_once)"
    by (simp_all add: called_once_php)
  have dm: "re_search_group True func_pattern (''function foo() {'' @ [CHR 0x0A])
      = Some (target_func (doc_target doc))"
    unfolding n by (rule called_once_definition_match)
  have k: "0 < length call_patterns" by (simp add: call_patterns_def)
  have cm: "target_func (doc_target doc)
      \<in> set (re_findall False (call_patterns ! 0) (''foo();'' @ [CHR 0x0A]))"
    unfolding n by (rule called_once_call_match)
  have ne: "(''c.php'', 20 :: int) \<noteq> (''a.php'', 5)" by simp
  note t = called_from_chain_per_call_site[OF d kw called_once_a php(1)
      called_once_definition_line dm called_once_c php(2) called_once_call_line k cm ne]
  have e: "concat (map called_from_of (function_chains doc))
         = [\<lparr>cf_file = ''a.php'', cf_line = 5, cf_code = ''function foo() {''\<rparr>,
            \<lparr>cf_file = ''c.php'', cf_line = 20, cf_code = ''foo();''\<rparr>]"
    using t[THEN conjunct1] unfolding n called_once_php
    by (simp add: called_once_calls_a called_once_calls_c)
  have c: "\<lparr>cf_file = ''c.php'', cf_line = 20, cf_code = ''foo();''\<rparr>
           \<in> set (concat (map called_from_of (function_chains doc)))"
    using t[THEN conjunct2, THEN conjunct1] by (simp only: called_once_codes)
  have a: "\<lparr>cf_file = ''a.php'', cf_line = 5, cf_code = ''function foo() {''\<rparr>
           \<in> set (concat (map called_from_of (function_chains doc)))"
    using t[THEN conjunct2, THEN conjunct2, THEN conjunct1] by (simp only: called_once_codes)
  have l: "2 \<le> length (concat (map called_from_of (function_chains doc)))"
    using t[THEN conjunct2, THEN conjunct2, THEN conjunct2] .
  from d n c a l e show ?thesis by blast
qed

text \<open>
  Claim C2 as stated fails in its own scenario: the run emits two \<open>called_from\<close> chains, the
  first of them for the line that defines \<open>foo\<close>.
\<close>

theorem definition_line_counted_counterexample:
  "run_called_from (main called_once occurs_in joern_present ''a.php'' 6 [] [])
     = [\<lparr>cf_file = ''a.php'', cf_line = 5, cf_code = ''function foo() {''\<rparr>,
        \<lparr>cf_file = ''c.php'', cf_line = 20, cf_code = ''foo();''\<rparr>]"
  by code_simp

end
